theory Spec2Isabelle
  imports Complex_Main
begin

section \<open>JavaScript numbers\<close>

text \<open>
  A JavaScript number is an IEEE 754 binary64 value. \<open>Finite r\<close> is the finite double
  whose exact value is the rational \<open>r\<close> (\<open>Finite 0\<close> is \<open>+0\<close>), \<open>NegZero\<close> is \<open>-0\<close>. The
  arithmetic below returns doubles only: an exact result is rounded to the nearest
  double, a tie going to the even significand, with gradual underflow below
  \<open>pow2 (- 1022)\<close> and overflow to an infinity from \<open>pow2 1024\<close> on.
\<close>

datatype number = Finite rat | NegZero | PosInfinity | NegInfinity | NaN

definition pow2 :: "int \<Rightarrow> rat" where
  "pow2 e = (if 0 \<le> e then 2 ^ nat e else 1 / 2 ^ nat (- e))"

text \<open>
  The binary exponent of a positive rational \<open>x\<close>, the \<open>e\<close> with
  \<open>pow2 e \<le> x < pow2 (e + 1)\<close>: by halving down to below 2 when \<open>1 \<le> x\<close>, and from
  the number of halvings that bring \<open>1 / x\<close> down to at most 1 otherwise.
\<close>

function log2_floor :: "rat \<Rightarrow> int" where
  "log2_floor x = (if 2 \<le> x then 1 + log2_floor (x / 2) else 0)"
  by pat_completeness auto
termination
proof (relation "measure (\<lambda>x. nat \<lfloor>x\<rfloor>)")
  show "wf (measure (\<lambda>x::rat. nat \<lfloor>x\<rfloor>))" by simp
next
  fix x :: rat assume "2 \<le> x"
  then have "x / 2 \<le> x - 1" by simp
  then have "\<lfloor>x / 2\<rfloor> \<le> \<lfloor>x - 1\<rfloor>" by (rule floor_mono)
  moreover have "2 \<le> \<lfloor>x\<rfloor>" using \<open>2 \<le> x\<close> by (simp add: le_floor_iff)
  ultimately show "(x / 2, x) \<in> measure (\<lambda>x. nat \<lfloor>x\<rfloor>)" by simp
qed

function log2_ceiling :: "rat \<Rightarrow> int" where
  "log2_ceiling x = (if 1 < x then 1 + log2_ceiling (x / 2) else 0)"
  by pat_completeness auto
termination
proof (relation "measure (\<lambda>x. nat \<lceil>x\<rceil>)")
  show "wf (measure (\<lambda>x::rat. nat \<lceil>x\<rceil>))" by simp
next
  fix x :: rat assume x: "1 < x"
  have "\<lceil>x / 2\<rceil> < \<lceil>x\<rceil>"
  proof (cases "2 \<le> x")
    case True
    then have "x / 2 \<le> x - 1" by simp
    then have "\<lceil>x / 2\<rceil> \<le> \<lceil>x - 1\<rceil>" by (rule ceiling_mono)
    also have "\<lceil>x - 1\<rceil> = \<lceil>x\<rceil> - 1" by (rule ceiling_diff_one)
    finally show ?thesis by simp
  next
    case False
    with x have "\<lceil>x / 2\<rceil> \<le> 1" by (simp add: ceiling_le_iff)
    moreover from x have "1 < \<lceil>x\<rceil>" by (simp add: less_ceiling_iff)
    ultimately show ?thesis by linarith
  qed
  moreover have "0 < \<lceil>x\<rceil>" using x by (simp add: less_ceiling_iff)
  ultimately show "(x / 2, x) \<in> measure (\<lambda>x. nat \<lceil>x\<rceil>)" by simp
qed

declare log2_floor.simps [simp del] log2_ceiling.simps [simp del]

definition ilog2 :: "rat \<Rightarrow> int" where
  "ilog2 x = (if 1 \<le> x then log2_floor x else - log2_ceiling (1 / x))"

text \<open>Rounding to the nearest integer, a tie going to the even one.\<close>

definition round_half_even :: "rat \<Rightarrow> int" where
  "round_half_even x =
     (let f = \<lfloor>x\<rfloor>; d = x - of_int f
      in if d < 1 / 2 then f
         else if 1 / 2 < d then f + 1
         else if even f then f else f + 1)"

text \<open>
  The multiple of the spacing of the doubles around the positive rational \<open>a\<close> that is
  nearest to \<open>a\<close>: the spacing is \<open>pow2 (e - 52)\<close> for the binary exponent \<open>e\<close> of \<open>a\<close>,
  and \<open>pow2 (- 1074)\<close> for the subnormal numbers.
\<close>

definition nearest_double :: "rat \<Rightarrow> rat" where
  "nearest_double a =
     (let e = max (ilog2 a) (- 1022) - 52
      in of_int (round_half_even (a / pow2 e)) * pow2 e)"

text \<open>The double for an exact result \<open>x\<close>; a result that rounds to zero keeps its sign.\<close>

definition to_double :: "rat \<Rightarrow> number" where
  "to_double x =
     (if x = 0 then Finite 0
      else
        let v = nearest_double \<bar>x\<bar>
        in if pow2 1024 \<le> v then (if x < 0 then NegInfinity else PosInfinity)
           else if v = 0 then (if x < 0 then NegZero else Finite 0)
           else Finite (if x < 0 then - v else v))"

definition negative :: "number \<Rightarrow> bool" where
  "negative x =
     (case x of
        Finite r \<Rightarrow> r < 0
      | NegZero \<Rightarrow> True
      | NegInfinity \<Rightarrow> True
      | PosInfinity \<Rightarrow> False
      | NaN \<Rightarrow> False)"

text \<open>
  The operator \<open>/\<close>. It never throws: a zero divisor gives an infinity, or \<open>NaN\<close> for
  \<open>0 / 0\<close>.
\<close>

definition js_divide :: "number \<Rightarrow> number \<Rightarrow> number" where
  "js_divide x y =
     (let infinite = (\<lambda>z. z = PosInfinity \<or> z = NegInfinity);
          zero = (\<lambda>z. z = Finite 0 \<or> z = NegZero);
          minus = (negative x \<noteq> negative y)
      in if x = NaN \<or> y = NaN then NaN
         else if infinite x then (if infinite y then NaN
                                  else if minus then NegInfinity else PosInfinity)
         else if infinite y then (if minus then NegZero else Finite 0)
         else if zero y then (if zero x then NaN
                              else if minus then NegInfinity else PosInfinity)
         else if zero x then (if minus then NegZero else Finite 0)
         else (case (x, y) of
                 (Finite a, Finite b) \<Rightarrow> to_double (a / b)
               | _ \<Rightarrow> NaN))"

text \<open>
  \<open>Math.round\<close>: the nearest integer, a tie going up; \<open>-0\<close> for a negative argument that
  rounds to zero; infinities, zeros and \<open>NaN\<close> are returned as they are.
\<close>

definition Math_round :: "number \<Rightarrow> number" where
  "Math_round x =
     (case x of
        Finite r \<Rightarrow> (if \<lfloor>r + 1 / 2\<rfloor> = 0 \<and> r < 0 then NegZero
                     else Finite (of_int \<lfloor>r + 1 / 2\<rfloor>))
      | _ \<Rightarrow> x)"

text \<open>
  Among the values \<open>Finite r\<close> the doubles are those that rounding leaves as they are,
  below \<open>pow2 1024\<close>.
\<close>

definition is_double :: "number \<Rightarrow> bool" where
  "is_double x =
     (case x of
        Finite r \<Rightarrow> nearest_double \<bar>r\<bar> = \<bar>r\<bar> \<and> \<bar>r\<bar> < pow2 1024
      | _ \<Rightarrow> True)"

text \<open>Truthiness of a number: every number but \<open>+0\<close>, \<open>-0\<close> and \<open>NaN\<close>.\<close>

definition truthy :: "number \<Rightarrow> bool" where
  "truthy x = (x \<noteq> Finite 0 \<and> x \<noteq> NegZero \<and> x \<noteq> NaN)"

section \<open>Data model (types.ts)\<close>

text \<open>
  The enum \<open>InterviewState\<close> and the interfaces \<open>Feedback\<close> and \<open>Question\<close> of
  \<^verbatim>\<open>types.ts\<close>. An optional field \<open>f?: T\<close> is a \<open>T option\<close>. The fields \<open>id\<close> and
  \<open>text\<close> of \<open>Question\<close> are named \<open>qid\<close> and \<open>qtext\<close>, and the nested fields of
  \<open>Feedback\<close> carry a prefix, because record fields are global names.
\<close>

datatype InterviewState =
    NOT_STARTED
  | GETTING_JOB_DESC
  | GENERATING_QUESTIONS
  | INTERVIEWING
  | AWAITING_FEEDBACK
  | REVIEWING

record Relevance =
  relevance_score :: number
  relevance_feedback :: string

record StarMethod =
  star_score :: number
  star_feedback :: string
  star_situation :: bool
  star_task :: bool
  star_action :: bool
  star_result :: bool

record ClarityConfidence =
  clarity_score :: number
  clarity_feedback :: string
  powerWords :: "string list"
  passiveWords :: "string list"

record Pace =
  pace_wpm :: number
  pace_feedback :: string

record FillerWords =
  filler_count :: number
  filler_words :: "string list"
  filler_feedback :: string

record Feedback =
  relevance :: Relevance
  starMethod :: StarMethod
  clarityConfidence :: ClarityConfidence
  pace :: Pace
  fillerWords :: FillerWords
  overallFeedback :: string

record Question =
  qid :: nat
  qtext :: string
  answer :: "string option"
  feedback :: "Feedback option"
  audioDuration :: "number option"

section \<open>The analysis service (services/geminiService)\<close>

text \<open>
  \<open>String.prototype.split\<close> with a one-character separator: the pieces between the
  occurrences of the separator, so the empty string gives one empty piece and a trailing
  separator gives a trailing empty piece.
\<close>

fun split_char :: "char \<Rightarrow> string \<Rightarrow> string list" where
  "split_char sep [] = [[]]"
| "split_char sep (c # cs) =
     (if c = sep then [] # split_char sep cs
      else (case split_char sep cs of
              w # ws \<Rightarrow> (c # w) # ws
            | [] \<Rightarrow> [[c]]))"

text \<open>
  What \<open>getAnswerFeedback\<close> sends: the prompt is a fixed template around the pace, the
  question text and the answer. The remote model and the \<open>JSON.parse\<close> of its reply are
  outside the repository: an \<open>AnalysisClient\<close> gives, for a prompt, the parsed feedback or
  \<open>None\<close> when the request or the parse throws. Such a failure is the value
  \<open>AnalysisFailure\<close>, kept apart from the \<open>Error\<close> that the function itself throws.
\<close>

record Prompt =
  prompt_wordsPerMinute :: number
  prompt_question :: string
  prompt_answer :: string

type_synonym AnalysisClient = "Prompt \<Rightarrow> Feedback option"

datatype error = Error string | AnalysisFailure

text \<open>
  The constant \<open>wordsPerMinute\<close> of \<open>getAnswerFeedback\<close>:
  \<^verbatim>\<open>question.audioDuration && question.answer ? Math.round(...) : 150\<close>.
  A string is falsy when it is absent or empty. The length of the array of pieces is an
  integer, which is a double as it stands.
\<close>

definition wordsPerMinute :: "Question \<Rightarrow> number" where
  "wordsPerMinute question =
     (case audioDuration question of
        None \<Rightarrow> Finite 150
      | Some d \<Rightarrow>
          (case answer question of
             None \<Rightarrow> Finite 150
           | Some a \<Rightarrow>
               if truthy d \<and> a \<noteq> []
               then Math_round
                      (js_divide (Finite (of_nat (length (split_char CHR '' '' a))))
                         (js_divide d (Finite 60)))
               else Finite 150))"

definition getAnswerFeedback :: "AnalysisClient \<Rightarrow> Question \<Rightarrow> error + Feedback" where
  "getAnswerFeedback generateContent question =
     (case answer question of
        None \<Rightarrow> Inl (Error ''Answer is missing'')
      | Some a \<Rightarrow>
          if a = [] then Inl (Error ''Answer is missing'')
          else (case generateContent
                       \<lparr>prompt_wordsPerMinute = wordsPerMinute question,
                        prompt_question = qtext question,
                        prompt_answer = a\<rparr> of
                  None \<Rightarrow> Inl AnalysisFailure
                | Some fb \<Rightarrow> Inr fb))"

text \<open>
  \<open>generateQuestionsFromJD\<close> wraps one request whose prompt is a fixed template around
  the job description; a \<open>QuestionClient\<close> gives the parsed list of strings, or \<open>None\<close>
  when the request or the parse throws.
\<close>

type_synonym QuestionClient = "string \<Rightarrow> string list option"

definition generateQuestionsFromJD :: "QuestionClient \<Rightarrow> string \<Rightarrow> error + string list" where
  "generateQuestionsFromJD generateContent jobDescription =
     (case generateContent jobDescription of
        None \<Rightarrow> Inl AnalysisFailure
      | Some qs \<Rightarrow> Inr qs)"

section \<open>The session state and its handlers (App.tsx)\<close>

text \<open>
  The React state of the component \<open>App\<close>, one field per \<open>useState\<close> hook.
  \<open>recognitionRef\<close> tells whether the mount effect found a speech recognition engine
  (\<open>recognitionRef.current\<close> is then an object, otherwise \<open>null\<close>). Timestamps are the
  integer milliseconds of \<open>Date.now()\<close>.
\<close>

record AppState =
  interviewState :: InterviewState
  jobDescription :: string
  questions :: "Question list"
  currentQuestionIndex :: nat
  isListening :: bool
  isSpeaking :: bool
  interimTranscript :: string
  finalTranscript :: string
  recordingStartTime :: "int option"
  recognitionRef :: bool

definition initialState :: "bool \<Rightarrow> AppState" where
  "initialState supported =
     \<lparr>interviewState = NOT_STARTED, jobDescription = [], questions = [],
      currentQuestionIndex = 0, isListening = False, isSpeaking = False,
      interimTranscript = [], finalTranscript = [], recordingStartTime = None,
      recognitionRef = supported\<rparr>"

definition PRESET_QUESTIONS :: "string list" where
  "PRESET_QUESTIONS =
     [''Tell me about yourself.'',
      ''What are your biggest strengths?'',
      ''What are your biggest weaknesses?'',
      ''Tell me about a time you faced a challenge at work and how you handled it.'',
      ''Where do you see yourself in five years?'']"

text \<open>\<open>Array.prototype.map\<close> with the callback that also receives the index.\<close>

definition map_index :: "(nat \<Rightarrow> 'a \<Rightarrow> 'b) \<Rightarrow> 'a list \<Rightarrow> 'b list" where
  "map_index f xs = map (\<lambda>(i, x). f i x) (enumerate 0 xs)"

subsection \<open>Speech recognition\<close>

text \<open>
  A recognition event: \<open>transcript\<close> is \<open>event.results[i][0].transcript\<close>, the first
  alternative of the \<open>i\<close>-th result.
\<close>

record SpeechRecognitionResult =
  isFinal :: bool
  transcript :: string

record SpeechRecognitionEvent =
  resultIndex :: nat
  results :: "SpeechRecognitionResult list"

text \<open>
  The \<open>for\<close> loop of \<open>recognition.onresult\<close> over the results from \<open>resultIndex\<close> on,
  threading the two local strings \<open>(interim, final)\<close>.
\<close>

fun onresult_loop :: "SpeechRecognitionResult list \<Rightarrow> string \<times> string \<Rightarrow> string \<times> string" where
  "onresult_loop [] (interim, final) = (interim, final)"
| "onresult_loop (r # rs) (interim, final) =
     (if isFinal r then onresult_loop rs (interim, final @ transcript r)
      else onresult_loop rs (interim @ transcript r, final))"

definition onresult :: "SpeechRecognitionEvent \<Rightarrow> AppState \<Rightarrow> AppState" where
  "onresult event s =
     (case onresult_loop (drop (resultIndex event) (results event)) ([], []) of
        (interim, final) \<Rightarrow>
          let s1 = s\<lparr>interimTranscript := interim\<rparr>
          in if final \<noteq> [] then s1\<lparr>finalTranscript := finalTranscript s1 @ final @ ''. ''\<rparr>
             else s1)"

definition startListening :: "int \<Rightarrow> AppState \<Rightarrow> AppState" where
  "startListening now s =
     (if recognitionRef s
      then s\<lparr>finalTranscript := [], interimTranscript := [],
             recordingStartTime := Some now, isListening := True\<rparr>
      else s)"

text \<open>
  \<open>stopListening\<close> reads \<open>currentQuestionIndex\<close>, \<open>questions.length\<close>,
  \<open>finalTranscript\<close> and \<open>recordingStartTime\<close> of the render it was created in, that
  is, of the state \<open>s\<close> it is applied to. The comparison with \<open>questions.length - 1\<close> is
  made on integers, since the length may be 0. The two timestamps are integers that are
  doubles as they stand, so their difference is the exact difference rounded.
\<close>

definition stopListening :: "int \<Rightarrow> AppState \<Rightarrow> AppState" where
  "stopListening endTime s =
     (if recognitionRef s then
        let duration = (case recordingStartTime s of
                          None \<Rightarrow> Finite 0
                        | Some t \<Rightarrow>
                            if t = 0 then Finite 0
                            else js_divide (to_double (of_int (endTime - t))) (Finite 1000));
            s1 = s\<lparr>isListening := False\<rparr>;
            s2 = s1\<lparr>questions :=
                      map_index (\<lambda>i q. if i = currentQuestionIndex s
                                        then q\<lparr>answer := Some (finalTranscript s),
                                               audioDuration := Some duration\<rparr>
                                        else q) (questions s1)\<rparr>
        in if int (currentQuestionIndex s) < int (length (questions s)) - 1
           then s2\<lparr>currentQuestionIndex := currentQuestionIndex s2 + 1\<rparr>
           else s2\<lparr>interviewState := AWAITING_FEEDBACK\<rparr>
      else s)"

subsection \<open>Interview flow\<close>

definition toQuestions :: "string list \<Rightarrow> Question list" where
  "toQuestions qs =
     map_index (\<lambda>i q. \<lparr>qid = i, qtext = q, answer = None, feedback = None,
                        audioDuration = None\<rparr>) qs"

text \<open>
  \<open>startInterview\<close> in two parts: what runs once the list of questions is known or the
  request has failed (the rest of the \<open>try\<close> block, or the \<open>catch\<close> block), and the whole
  function for a given client.
\<close>

definition startInterview_settle :: "error + string list \<Rightarrow> AppState \<Rightarrow> AppState" where
  "startInterview_settle r s =
     (case r of
        Inr generatedQs \<Rightarrow>
          s\<lparr>questions := toQuestions generatedQs, currentQuestionIndex := 0,
            interviewState := INTERVIEWING\<rparr>
      | Inl e \<Rightarrow>
          s\<lparr>questions := toQuestions PRESET_QUESTIONS, currentQuestionIndex := 0,
            interviewState := INTERVIEWING\<rparr>)"

definition startInterview_begin :: "AppState \<Rightarrow> AppState" where
  "startInterview_begin s = s\<lparr>interviewState := GENERATING_QUESTIONS\<rparr>"


definition resetInterview :: "AppState \<Rightarrow> AppState" where
  "resetInterview s =
     s\<lparr>interviewState := NOT_STARTED, jobDescription := [], questions := [],
       currentQuestionIndex := 0, finalTranscript := [], interimTranscript := []\<rparr>"

text \<open>
  The \<open>INTERVIEWING\<close> view reads \<open>questions[currentQuestionIndex].text\<close> without a test.
  Past the end of the array the element is \<open>undefined\<close> and the read throws a
  \<open>TypeError\<close> during the render: that outcome is \<open>None\<close>.
\<close>

definition currentQuestionText :: "AppState \<Rightarrow> string option" where
  "currentQuestionText s =
     (if currentQuestionIndex s < length (questions s)
      then Some (qtext (questions s ! currentQuestionIndex s))
      else None)"

subsection \<open>The feedback pipeline\<close>

text \<open>Truthiness of \<open>q.answer\<close>: present and not the empty string.\<close>

definition answered :: "Question \<Rightarrow> bool" where
  "answered q = (case answer q of None \<Rightarrow> False | Some a \<Rightarrow> a \<noteq> [])"

text \<open>
  The body of the \<open>try\<close>/\<open>catch\<close> of \<open>fetchFeedback\<close> once the awaited
  \<open>getAnswerFeedback\<close> of iteration \<open>i\<close> has settled with \<open>r\<close>: on success the feedback is
  stored in the local array \<open>updatedQuestions\<close> and a copy of that array is written to the
  state; on failure the error is logged and nothing changes. The writes go to whatever
  the state is when the call settles.
\<close>

definition fetchFeedback_settle ::
  "error + Feedback \<Rightarrow> nat \<Rightarrow> Question list \<Rightarrow> AppState \<Rightarrow> Question list \<times> AppState" where
  "fetchFeedback_settle r i updatedQuestions s =
     (case r of
        Inr fb \<Rightarrow>
          let updated = updatedQuestions[i := (updatedQuestions ! i)\<lparr>feedback := Some fb\<rparr>]
          in (updated, s\<lparr>questions := updated\<rparr>)
      | Inl e \<Rightarrow> (updatedQuestions, s))"

text \<open>
  The \<open>for\<close> loop of \<open>fetchFeedback\<close> from iteration \<open>i\<close> on, against a client that
  answers every request at once. The last argument and the second component of the result
  are a trace: the questions handed to \<open>getAnswerFeedback\<close>, in the order of the calls.
  (The constant \<open>questionsWithAnswers\<close> of the source is never read.)
\<close>

function fetchFeedback_for ::
  "AnalysisClient \<Rightarrow> nat \<Rightarrow> Question list \<Rightarrow> AppState \<Rightarrow> Question list
     \<Rightarrow> AppState \<times> Question list" where
  "fetchFeedback_for client i updatedQuestions s calls =
     (if i < length updatedQuestions then
        (if answered (updatedQuestions ! i) then
           (case fetchFeedback_settle (getAnswerFeedback client (updatedQuestions ! i))
                   i updatedQuestions s of
              (updated, s') \<Rightarrow>
                fetchFeedback_for client (i + 1) updated s' (calls @ [updatedQuestions ! i]))
         else fetchFeedback_for client (i + 1) updatedQuestions s calls)
      else (s\<lparr>interviewState := REVIEWING\<rparr>, calls))"
  by pat_completeness auto
termination
  by (relation "measure (\<lambda>(client, i, u, s, calls). length u - i)")
     (auto simp: fetchFeedback_settle_def Let_def split: sum.splits)

declare fetchFeedback_for.simps [simp del]

definition fetchFeedback :: "AnalysisClient \<Rightarrow> AppState \<Rightarrow> AppState \<times> Question list" where
  "fetchFeedback client s = fetchFeedback_for client 0 (questions s) s []"

text \<open>The effect that depends on \<open>interviewState\<close>.\<close>

definition feedbackEffect :: "AnalysisClient \<Rightarrow> AppState \<Rightarrow> AppState" where
  "feedbackEffect client s =
     (if interviewState s = AWAITING_FEEDBACK then fst (fetchFeedback client s) else s)"

text \<open>
  The same loop one await at a time. \<open>fetchFeedback_advance\<close> runs the loop from
  iteration \<open>i\<close> up to the next call of \<open>getAnswerFeedback\<close>, where the function is
  suspended with its loop index and its local array, or to the end, where it sets the
  phase. \<open>fetchFeedback_resume\<close> is the continuation of the suspended function when its
  call settles with \<open>r\<close>, in the state \<open>s\<close> of that moment.
\<close>

function fetchFeedback_advance ::
  "nat \<Rightarrow> Question list \<Rightarrow> AppState \<Rightarrow> (nat \<times> Question list) option \<times> AppState" where
  "fetchFeedback_advance i updatedQuestions s =
     (if i < length updatedQuestions then
        (if answered (updatedQuestions ! i) then (Some (i, updatedQuestions), s)
         else fetchFeedback_advance (i + 1) updatedQuestions s)
      else (None, s\<lparr>interviewState := REVIEWING\<rparr>))"
  by pat_completeness auto
termination
  by (relation "measure (\<lambda>(i, u, s). length u - i)") auto

declare fetchFeedback_advance.simps [simp del]

definition fetchFeedback_resume ::
  "error + Feedback \<Rightarrow> nat \<Rightarrow> Question list \<Rightarrow> AppState
     \<Rightarrow> (nat \<times> Question list) option \<times> AppState" where
  "fetchFeedback_resume r i updatedQuestions s =
     (case fetchFeedback_settle r i updatedQuestions s of
        (updated, s') \<Rightarrow> fetchFeedback_advance (i + 1) updated s')"

section \<open>The application as a transition system\<close>

text \<open>
  The component together with its suspended asynchronous functions: \<open>generating\<close> holds
  while \<open>startInterview\<close> awaits the generated questions, \<open>pending\<close> is the suspended
  \<open>fetchFeedback\<close>. An event is a click on a control, a callback of the speech engines
  or the settling of an awaited request, with what the outside world supplies (the clock,
  the recognition results, the reply of the service). A control that the current view
  does not render, or renders disabled, cannot be clicked: the event then leaves the
  system as it is. A render that throws unmounts the component, and no later event
  reaches it; the transition system does not stop there, so its runs are those of the
  application and their continuations past such a render.
\<close>

record System =
  app :: AppState
  generating :: bool
  pending :: "(nat \<times> Question list) option"

datatype Event =
    ClickStartWithJobDescription
  | ChangeJobDescription string
  | ClickStartInterview
  | QuestionsSettled "string list option"
  | ClickMic int
  | RecognitionResult SpeechRecognitionEvent
  | UtteranceStart
  | UtteranceEnd
  | FeedbackSettled "Feedback option"
  | ClickReset

text \<open>
  The effect on \<open>interviewState\<close> runs after a render in which that value has changed;
  it starts \<open>fetchFeedback\<close> on the questions of that render, which runs up to its
  first await. Only \<open>stopListening\<close> sets the phase \<open>AWAITING_FEEDBACK\<close>, so the
  effect is run after a click on the microphone.
\<close>

definition runEffects :: "AppState \<Rightarrow> System \<Rightarrow> System" where
  "runEffects previous sys =
     (if interviewState (app sys) \<noteq> interviewState previous
         \<and> interviewState (app sys) = AWAITING_FEEDBACK
      then (case fetchFeedback_advance 0 (questions (app sys)) (app sys) of
              (p, s') \<Rightarrow> sys\<lparr>app := s', pending := p\<rparr>)
      else sys)"

text \<open>
  The events, with the view that offers each control:
  \<^item> \<open>ClickStartWithJobDescription\<close>: the first button of the \<open>NOT_STARTED\<close> view;
  \<^item> \<open>ChangeJobDescription\<close>: the text area of the \<open>GETTING_JOB_DESC\<close> view;
  \<^item> \<open>ClickStartInterview\<close>: the second button of the \<open>NOT_STARTED\<close> view, and the
    button of the \<open>GETTING_JOB_DESC\<close> view, disabled while the job description is empty.
    \<open>startInterview\<close> awaits a request only when the job description is not empty;
    otherwise it runs to its end within the click;
  \<^item> \<open>QuestionsSettled\<close>: the request awaited by \<open>startInterview\<close> returns a list or fails;
  \<^item> \<open>ClickMic\<close>: the round button of the \<open>INTERVIEWING\<close> view, disabled while the
    question is spoken; it calls \<open>stopListening\<close> when listening and \<open>startListening\<close>
    otherwise, at the given time;
  \<^item> \<open>RecognitionResult\<close>: the \<open>onresult\<close> callback, installed when an engine exists;
  \<^item> \<open>UtteranceStart\<close>, \<open>UtteranceEnd\<close>: the callbacks of the speech synthesis;
  \<^item> \<open>FeedbackSettled\<close>: the request awaited by \<open>fetchFeedback\<close> returns a feedback
    or fails;
  \<^item> \<open>ClickReset\<close>: the button of the \<open>REVIEWING\<close> view, the only place where
    \<open>resetInterview\<close> is bound.
\<close>

fun step :: "System \<Rightarrow> Event \<Rightarrow> System" where
  "step sys ClickStartWithJobDescription =
     (if interviewState (app sys) = NOT_STARTED
      then sys\<lparr>app := (app sys)\<lparr>interviewState := GETTING_JOB_DESC\<rparr>\<rparr>
      else sys)"
| "step sys (ChangeJobDescription v) =
     (if interviewState (app sys) = GETTING_JOB_DESC
      then sys\<lparr>app := (app sys)\<lparr>jobDescription := v\<rparr>\<rparr>
      else sys)"
| "step sys ClickStartInterview =
     (if interviewState (app sys) = NOT_STARTED
         \<or> (interviewState (app sys) = GETTING_JOB_DESC \<and> jobDescription (app sys) \<noteq> [])
      then (if jobDescription (app sys) \<noteq> []
            then sys\<lparr>app := startInterview_begin (app sys), generating := True\<rparr>
            else sys\<lparr>app := startInterview_settle (Inr PRESET_QUESTIONS)
                               (startInterview_begin (app sys))\<rparr>)
      else sys)"
| "step sys (QuestionsSettled reply) =
     (if generating sys
      then sys\<lparr>app := startInterview_settle
                         (generateQuestionsFromJD (\<lambda>jd. reply) (jobDescription (app sys)))
                         (app sys),
               generating := False\<rparr>
      else sys)"
| "step sys (ClickMic now) =
     (if interviewState (app sys) = INTERVIEWING \<and> \<not> isSpeaking (app sys)
      then runEffects (app sys)
             (sys\<lparr>app := (if isListening (app sys) then stopListening now (app sys)
                            else startListening now (app sys))\<rparr>)
      else sys)"
| "step sys (RecognitionResult event) =
     (if recognitionRef (app sys) then sys\<lparr>app := onresult event (app sys)\<rparr> else sys)"
| "step sys UtteranceStart = sys\<lparr>app := (app sys)\<lparr>isSpeaking := True\<rparr>\<rparr>"
| "step sys UtteranceEnd = sys\<lparr>app := (app sys)\<lparr>isSpeaking := False\<rparr>\<rparr>"
| "step sys (FeedbackSettled reply) =
     (case pending sys of
        None \<Rightarrow> sys
      | Some (i, updatedQuestions) \<Rightarrow>
          (case fetchFeedback_resume
                  (getAnswerFeedback (\<lambda>prompt. reply) (updatedQuestions ! i))
                  i updatedQuestions (app sys) of
             (p, s') \<Rightarrow> sys\<lparr>app := s', pending := p\<rparr>))"
| "step sys ClickReset =
     (if interviewState (app sys) = REVIEWING
      then sys\<lparr>app := resetInterview (app sys)\<rparr>
      else sys)"

definition initialSystem :: "bool \<Rightarrow> System" where
  "initialSystem supported =
     \<lparr>app = initialState supported, generating = False, pending = None\<rparr>"

definition run :: "bool \<Rightarrow> Event list \<Rightarrow> System" where
  "run supported events = foldl step (initialSystem supported) events"

section \<open>Sample values\<close>

definition sampleFeedback :: Feedback where
  "sampleFeedback =
     \<lparr>relevance = \<lparr>relevance_score = Finite 4, relevance_feedback = ''ok''\<rparr>,
      starMethod = \<lparr>star_score = Finite 3, star_feedback = ''ok'', star_situation = True,
                    star_task = True, star_action = False, star_result = False\<rparr>,
      clarityConfidence = \<lparr>clarity_score = Finite 4, clarity_feedback = ''ok'',
                           powerWords = [''led''], passiveWords = []\<rparr>,
      pace = \<lparr>pace_wpm = Finite 150, pace_feedback = ''ok''\<rparr>,
      fillerWords = \<lparr>filler_count = Finite 0, filler_words = [], filler_feedback = ''ok''\<rparr>,
      overallFeedback = ''ok''\<rparr>"

text \<open>A client that answers every prompt, reporting the pace it was given.\<close>

definition echoClient :: AnalysisClient where
  "echoClient p =
     Some (sampleFeedback\<lparr>pace := \<lparr>pace_wpm = prompt_wordsPerMinute p,
                                   pace_feedback = ''ok''\<rparr>\<rparr>)"

text \<open>A client that fails on the question text \<open>''Q1''\<close> and answers every other prompt.\<close>

definition flakyClient :: AnalysisClient where
  "flakyClient p = (if prompt_question p = ''Q1'' then None else Some sampleFeedback)"

definition failingClient :: AnalysisClient where
  "failingClient p = None"

definition sampleQuestion :: "string \<Rightarrow> number \<Rightarrow> Question" where
  "sampleQuestion a d =
     \<lparr>qid = 0, qtext = ''Q0'', answer = Some a, feedback = None, audioDuration = Some d\<rparr>"

definition twoFinals :: SpeechRecognitionEvent where
  "twoFinals =
     \<lparr>resultIndex = 0,
      results = [\<lparr>isFinal = True, transcript = ''a''\<rparr>,
                 \<lparr>isFinal = True, transcript = ''b''\<rparr>,
                 \<lparr>isFinal = False, transcript = ''c''\<rparr>]\<rparr>"

definition interimOnly :: SpeechRecognitionEvent where
  "interimOnly =
     \<lparr>resultIndex = 0, results = [\<lparr>isFinal = False, transcript = ''hello''\<rparr>]\<rparr>"

definition oneQuestionState :: AppState where
  "oneQuestionState =
     (initialState True)\<lparr>interviewState := INTERVIEWING, questions := toQuestions [''Q0'']\<rparr>"




definition threeAnswered :: AppState where
  "threeAnswered =
     (initialState True)
       \<lparr>interviewState := AWAITING_FEEDBACK,
        questions := map (\<lambda>q. q\<lparr>answer := Some ''a b'', audioDuration := Some (Finite 2)\<rparr>)
                       (toQuestions [''Q0'', ''Q1'', ''Q2''])\<rparr>"

definition presetSession :: "Event list" where
  "presetSession =
     [ClickStartInterview, ClickMic 1000, RecognitionResult twoFinals, ClickMic 3000]"

definition emptyGeneration :: "Event list" where
  "emptyGeneration =
     [ClickStartWithJobDescription, ChangeJobDescription ''dev'', ClickStartInterview,
      QuestionsSettled (Some [])]"


definition silentSecond :: AppState where
  "silentSecond =
     (initialState True)
       \<lparr>interviewState := AWAITING_FEEDBACK,
        questions :=
          [\<lparr>qid = 0, qtext = ''Q0'', answer = Some ''a b'', feedback = None,
            audioDuration = Some (Finite 2)\<rparr>,
           \<lparr>qid = 1, qtext = ''Q1'', answer = Some [], feedback = None,
            audioDuration = Some (Finite 3)\<rparr>]\<rparr>"

definition secondAnswer :: "Event list" where
  "secondAnswer = presetSession @ [ClickMic 4000]"






section \<open>The word count of the specification\<close>


section \<open>The invariant of the reachable states\<close>

text \<open>
  What every reachable state satisfies: the two flags of the suspended functions agree
  with the phase, a suspended \<open>fetchFeedback\<close> waits on an answered question and holds
  the list of questions of the state, the index is 0 before the interview and in range
  during it (or the list is empty), answers come with durations, ids are the positions,
  and a capture runs only when an engine exists.
\<close>

definition invariant :: "System \<Rightarrow> bool" where
  "invariant sys =
     ((generating sys = (interviewState (app sys) = GENERATING_QUESTIONS))
      \<and> (case pending sys of
            None \<Rightarrow> interviewState (app sys) \<noteq> AWAITING_FEEDBACK
          | Some (i, u) \<Rightarrow>
              interviewState (app sys) = AWAITING_FEEDBACK \<and> i < length u
              \<and> answered (u ! i) \<and> questions (app sys) = u)
      \<and> (interviewState (app sys) \<in> {NOT_STARTED, GETTING_JOB_DESC, GENERATING_QUESTIONS}
             \<longrightarrow> currentQuestionIndex (app sys) = 0)
      \<and> (interviewState (app sys) = INTERVIEWING \<longrightarrow>
             currentQuestionIndex (app sys) < length (questions (app sys))
             \<or> (questions (app sys) = [] \<and> currentQuestionIndex (app sys) = 0))
      \<and> (\<forall>q \<in> set (questions (app sys)). (answer q = None) = (audioDuration q = None))
      \<and> map qid (questions (app sys)) = [0..<length (questions (app sys))]
      \<and> (isListening (app sys) \<longrightarrow> recognitionRef (app sys)))"

text \<open>
  A second invariant: during the interview no question has feedback, and while
  \<open>fetchFeedback\<close> is suspended at iteration \<open>i\<close> the questions from \<open>i\<close> on have none.
\<close>

definition unreviewed :: "System \<Rightarrow> bool" where
  "unreviewed sys =
     ((interviewState (app sys) = INTERVIEWING \<longrightarrow>
         (\<forall>q \<in> set (questions (app sys)). feedback q = None))
      \<and> (case pending sys of
            None \<Rightarrow> True
          | Some (i, u) \<Rightarrow> \<forall>k. i \<le> k \<and> k < length u \<longrightarrow> feedback (u ! k) = None))"

section \<open>Facts about JavaScript numbers\<close>

lemma pow2_positive: "0 < pow2 e"
  by (simp add: pow2_def)

lemma pow2_power_int: "pow2 e = 2 powi e"
  by (simp add: pow2_def power_int_def field_simps)

lemma pow2_add: "pow2 (a + b) = pow2 a * pow2 b"
  by (simp add: pow2_power_int power_int_add)

lemma pow2_Suc: "pow2 (1 + e) = 2 * pow2 e"
  by (simp add: pow2_add) (simp add: pow2_def)

lemma pow2_Suc_Suc: "pow2 (2 + e) = 4 * pow2 e"
  by (simp add: pow2_add) (simp add: pow2_def)

lemma log2_floor_bounds:
  "1 \<le> x \<Longrightarrow>
     0 \<le> log2_floor x \<and> pow2 (log2_floor x) \<le> x \<and> x < pow2 (1 + log2_floor x)"
proof (induction x rule: log2_floor.induct)
  case (1 x)
  show ?case
  proof (cases "2 \<le> x")
    case True
    then have "1 \<le> x / 2" by simp
    from "1.IH" [OF True this] True show ?thesis
      by (simp add: log2_floor.simps [of x] pow2_Suc pow2_Suc_Suc)
  next
    case False
    with "1.prems" show ?thesis
      by (simp add: log2_floor.simps [of x] pow2_def)
  qed
qed

lemma log2_ceiling_bounds:
  "0 \<le> log2_ceiling x \<and> (x \<le> 1 \<longrightarrow> log2_ceiling x = 0)
   \<and> (1 < x \<longrightarrow> x \<le> pow2 (log2_ceiling x) \<and> pow2 (log2_ceiling x) < 2 * x)"
proof (induction x rule: log2_ceiling.induct)
  case (1 x)
  show ?case
  proof (cases "1 < x")
    case True
    note IH = "1.IH" [OF True]
    show ?thesis
    proof (cases "x / 2 \<le> 1")
      case half: True
      with IH have "log2_ceiling (x / 2) = 0" by simp
      with True half show ?thesis
        by (simp add: log2_ceiling.simps [of x] pow2_def)
    next
      case False
      with IH True show ?thesis
        by (simp add: log2_ceiling.simps [of x] pow2_Suc)
    qed
  next
    case False
    then show ?thesis by (simp add: log2_ceiling.simps [of x])
  qed
qed

lemma pow2_minus: "pow2 (- e) = 1 / pow2 e"
  by (simp add: pow2_power_int power_int_minus field_simps)

text \<open>\<open>ilog2\<close> is the binary exponent.\<close>

lemma ilog2_bounds:
  assumes "0 < x"
  shows "pow2 (ilog2 x) \<le> x \<and> x < pow2 (ilog2 x + 1)"
proof (cases "1 \<le> x")
  case True
  with log2_floor_bounds [OF True] show ?thesis by (simp add: ilog2_def add.commute)
next
  case False
  let ?k = "log2_ceiling (1 / x)"
  from False assms have "1 < 1 / x" by simp
  with log2_ceiling_bounds [of "1 / x"]
  have k: "1 / x \<le> pow2 ?k" "pow2 ?k < 2 * (1 / x)" by simp_all
  have p: "0 < pow2 ?k" by (rule pow2_positive)
  from k(1) assms p have "1 \<le> x * pow2 ?k"
    by (simp add: divide_le_eq mult.commute)
  then have lo: "pow2 (- ?k) \<le> x"
    using p by (simp add: pow2_minus divide_le_eq)
  from k(2) assms p have "x * pow2 ?k < 2"
    by (simp add: less_divide_eq mult.commute)
  then have "x < 2 * pow2 (- ?k)"
    using p by (simp add: pow2_minus less_divide_eq)
  then have hi: "x < pow2 (1 + - ?k)" by (simp only: pow2_Suc)
  from lo hi False show ?thesis by (simp add: ilog2_def add.commute)
qed

text \<open>\<open>round_half_even\<close> is within one half.\<close>

lemma round_half_even_near: "\<bar>x - of_int (round_half_even x)\<bar> \<le> 1 / 2"
proof -
  have "of_int \<lfloor>x\<rfloor> \<le> x" "x < of_int \<lfloor>x\<rfloor> + 1" by linarith+
  then show ?thesis by (auto simp: round_half_even_def Let_def abs_le_iff)
qed

text \<open>\<open>nearest_double\<close> is within half a spacing.\<close>

lemma nearest_double_near:
  "\<bar>a - nearest_double a\<bar> \<le> pow2 (max (ilog2 a) (- 1022) - 52) / 2"
proof -
  let ?q = "pow2 (max (ilog2 a) (- 1022) - 52)"
  have q: "0 < ?q" by (rule pow2_positive)
  have "\<bar>a / ?q - of_int (round_half_even (a / ?q))\<bar> \<le> 1 / 2"
    by (rule round_half_even_near)
  then have "\<bar>a / ?q - of_int (round_half_even (a / ?q))\<bar> * ?q \<le> 1 / 2 * ?q"
    using q by (simp only: mult_le_cancel_right_pos)
  moreover have "\<bar>a / ?q - of_int (round_half_even (a / ?q))\<bar> * ?q
                   = \<bar>(a / ?q - of_int (round_half_even (a / ?q))) * ?q\<bar>"
    using q by (simp add: abs_mult)
  moreover have "(a / ?q - of_int (round_half_even (a / ?q))) * ?q
                   = a - of_int (round_half_even (a / ?q)) * ?q"
    using q by (simp add: left_diff_distrib)
  ultimately show ?thesis by (simp add: nearest_double_def Let_def)
qed

subsection \<open>The results of the arithmetic are doubles\<close>

lemma pow2_mono: "a \<le> b \<Longrightarrow> pow2 a \<le> pow2 b"
  by (simp add: pow2_power_int power_int_increasing)

lemma ilog2_unique:
  assumes "pow2 e \<le> x" and "x < pow2 (e + 1)"
  shows "ilog2 x = e"
proof (rule ccontr)
  assume ne: "ilog2 x \<noteq> e"
  have x: "0 < x" using assms(1) pow2_positive [of e] by linarith
  from ilog2_bounds [OF x]
  have b: "pow2 (ilog2 x) \<le> x" "x < pow2 (ilog2 x + 1)" by simp_all
  from ne consider "ilog2 x + 1 \<le> e" | "e + 1 \<le> ilog2 x" by linarith
  then show False
  proof cases
    case 1
    then have "pow2 (ilog2 x + 1) \<le> pow2 e" by (rule pow2_mono)
    with b assms show False by linarith
  next
    case 2
    then have "pow2 (e + 1) \<le> pow2 (ilog2 x)" by (rule pow2_mono)
    with b assms show False by linarith
  qed
qed

lemma pow2_strict_mono: "a < b \<Longrightarrow> pow2 a < pow2 b"
  by (simp add: pow2_power_int power_int_strict_increasing)

lemma ilog2_less: 
  assumes "0 < x" and "x < pow2 e" shows "ilog2 x < e"
proof (rule ccontr)
  assume "\<not> ilog2 x < e"
  then have "pow2 e \<le> pow2 (ilog2 x)" by (intro pow2_mono) simp
  with ilog2_bounds [OF assms(1)] assms(2) show False by linarith
qed

lemma round_half_even_of_int [simp]: "round_half_even (of_int m) = m"
  by (simp add: round_half_even_def Let_def)

lemma round_half_even_le: "x \<le> of_int n \<Longrightarrow> round_half_even x \<le> n"
  unfolding round_half_even_def Let_def
  by (auto simp: floor_le_iff le_floor_iff)

lemma round_half_even_ge: 
  assumes "of_int n \<le> x" shows "n \<le> round_half_even x"
proof -
  from assms have "n \<le> \<lfloor>x\<rfloor>" by (simp add: le_floor_iff)
  then show ?thesis by (simp add: round_half_even_def Let_def)
qed

lemma nearest_double_zero [simp]: "nearest_double 0 = 0"
  by (simp add: nearest_double_def Let_def round_half_even_def)

lemma nearest_double_fixed:
  assumes "max (ilog2 (of_int m * pow2 e)) (- 1022) - 52 = e"
  shows "nearest_double (of_int m * pow2 e) = of_int m * pow2 e"
  using assms pow2_positive [of e] by (simp add: nearest_double_def Let_def)

lemma nearest_double_idem: 
  assumes a: "0 < a"
  shows "nearest_double (nearest_double a) = nearest_double a"
proof -
  define E where "E = max (ilog2 a) (- 1022)"
  define q where "q = pow2 (E - 52)"
  define m where "m = round_half_even (a / q)"
  have q: "0 < q" by (simp add: q_def pow2_positive)
  have v: "nearest_double a = of_int m * q"
    by (simp add: nearest_double_def Let_def m_def q_def E_def)
  from ilog2_bounds [OF a] have lo: "pow2 (ilog2 a) \<le> a" and hi: "a < pow2 (ilog2 a + 1)"
    by simp_all
  have p: "pow2 53 = 9007199254740992" "pow2 52 = 4503599627370496"
    by (simp_all add: pow2_def)
  have q53: "pow2 (E + 1) = 9007199254740992 * q"
    using pow2_add [of 53 "E - 52"] by (simp add: q_def p add.commute)
  have q52: "pow2 E = 4503599627370496 * q"
    using pow2_add [of 52 "E - 52"] by (simp add: q_def p)
  have "a < pow2 (E + 1)"
    using hi pow2_mono [of "ilog2 a + 1" "E + 1"] by (simp add: E_def)
  then have "a / q \<le> of_int 9007199254740992" using q by (simp add: q53 field_simps)
  then have m53: "m \<le> 9007199254740992" unfolding m_def by (rule round_half_even_le)
  have m0: "0 \<le> m"
    unfolding m_def using a q by (intro round_half_even_ge) simp
  show ?thesis
  proof (cases "m = 0")
    case True
    then show ?thesis by (simp add: v)
  next
    case False
    with m0 have mpos: "0 < m" by simp
    then have vpos: "0 < of_int m * q" using q by simp
    have fixed: "nearest_double (of_int m * q) = of_int m * q"
      if "max (ilog2 (of_int m * q)) (- 1022) = E"
    proof -
      from that have "max (ilog2 (of_int m * q)) (- 1022) - 52 = E - 52" by simp
      then show ?thesis unfolding q_def by (rule nearest_double_fixed)
    qed
    show ?thesis
    proof (cases "- 1022 \<le> ilog2 a")
      case True
      then have E: "E = ilog2 a" by (simp add: E_def)
      have "of_int 4503599627370496 \<le> a / q"
        using lo q by (simp add: E [symmetric] q52 field_simps)
      then have m52: "4503599627370496 \<le> m" unfolding m_def by (rule round_half_even_ge)
      show ?thesis
      proof (cases "m = 9007199254740992")
        case True
        define q2 where "q2 = pow2 (E + 1 - 52)"
        have "q2 = 2 * q" using pow2_Suc [of "E - 52"] by (simp add: q2_def q_def add.commute)
        then have v2: "of_int m * q = of_int 4503599627370496 * q2" by (simp add: True)
        have "ilog2 (of_int m * q) = E + 1"
        proof (rule ilog2_unique)
          show "pow2 (E + 1) \<le> of_int m * q" by (simp add: True q53)
          show "of_int m * q < pow2 (E + 1 + 1)"
            using pow2_Suc [of "E + 1"] q by (simp add: True q53 add.commute)
        qed
        then have "ilog2 (of_int 4503599627370496 * q2) = E + 1" by (simp only: v2)
        moreover have "- 1022 \<le> E + 1" using \<open>- 1022 \<le> ilog2 a\<close> E by simp
        ultimately have "max (ilog2 (of_int 4503599627370496 * q2)) (- 1022) - 52 = E + 1 - 52"
          by (simp only: max_def) simp
        then have "nearest_double (of_int 4503599627370496 * q2) = of_int 4503599627370496 * q2"
          unfolding q2_def by (rule nearest_double_fixed)
        then show ?thesis by (simp only: v v2)
      next
        case False
        with m53 have "m < 9007199254740992" by simp
        then have m53': "(of_int m :: rat) < 9007199254740992" by linarith
        have "ilog2 (of_int m * q) = E"
        proof (rule ilog2_unique)
          have "(4503599627370496 :: rat) \<le> of_int m" using m52 by linarith
          then show "pow2 E \<le> of_int m * q" using q by (simp add: q52)
          show "of_int m * q < pow2 (E + 1)" using m53' q by (simp add: q53)
        qed
        then have "nearest_double (of_int m * q) = of_int m * q"
          using \<open>- 1022 \<le> ilog2 a\<close> E by (intro fixed) simp
        then show ?thesis by (simp only: v)
      qed
    next
      case False
      then have E: "E = - 1022" by (simp add: E_def)
      from False have "ilog2 a + 1 \<le> - 1022" by simp
      then have "pow2 (ilog2 a + 1) \<le> pow2 (- 1022)" by (rule pow2_mono)
      with hi have "a < pow2 E" by (simp add: E)
      then have "a / q \<le> of_int 4503599627370496" using q by (simp add: q52 field_simps)
      then have "m \<le> 4503599627370496" unfolding m_def by (rule round_half_even_le)
      then have "(of_int m :: rat) \<le> 4503599627370496" by linarith
      then have "of_int m * q \<le> pow2 E" using q by (simp add: q52)
      also have "pow2 E < pow2 (E + 1)" by (simp add: pow2_strict_mono)
      finally have "ilog2 (of_int m * q) < E + 1" using vpos by (intro ilog2_less)
      then have le: "ilog2 (of_int m * q) \<le> E" by simp
      then have "nearest_double (of_int m * q) = of_int m * q"
        by (intro fixed) (simp add: E)
      then show ?thesis by (simp only: v)
    qed
  qed
qed


lemma nearest_double_nonneg: "0 \<le> a \<Longrightarrow> 0 \<le> nearest_double a"
  using pow2_positive [of "max (ilog2 a) (- 1022) - 52"]
  by (simp add: nearest_double_def Let_def round_half_even_ge)

lemma is_double_simps [simp]:
  "is_double NaN" "is_double PosInfinity" "is_double NegInfinity" "is_double NegZero"
  "is_double (Finite 0)"
  using pow2_positive [of 1024] by (simp_all add: is_double_def)

lemma to_double_is_double: "is_double (to_double x)"
proof (cases "x = 0")
  case True
  then show ?thesis by (simp add: to_double_def)
next
  case False
  define v where "v = nearest_double \<bar>x\<bar>"
  from False have "0 < \<bar>x\<bar>" by simp
  then have idem: "nearest_double v = v" unfolding v_def by (rule nearest_double_idem)
  have v0: "0 \<le> v" unfolding v_def by (rule nearest_double_nonneg) simp
  have t: "to_double x =
             (if pow2 1024 \<le> v then (if x < 0 then NegInfinity else PosInfinity)
              else if v = 0 then (if x < 0 then NegZero else Finite 0)
              else Finite (if x < 0 then - v else v))"
    using False by (simp add: to_double_def Let_def v_def)
  show ?thesis
  proof (cases "pow2 1024 \<le> v \<or> v = 0")
    case True
    then show ?thesis by (auto simp: t)
  next
    case False
    then have "to_double x = Finite (if x < 0 then - v else v)" by (simp add: t)
    moreover have "\<bar>if x < 0 then - v else v\<bar> = v" using v0 by simp
    ultimately show ?thesis using idem False by (simp add: is_double_def)
  qed
qed

lemma js_divide_is_double: "is_double (js_divide x y)"
  by (cases x; cases y) (simp_all add: js_divide_def Let_def to_double_is_double)

lemma ilog2_ge:
  assumes "pow2 e \<le> x" shows "e \<le> ilog2 x"
proof (rule ccontr)
  assume "\<not> e \<le> ilog2 x"
  then have "pow2 (ilog2 x + 1) \<le> pow2 e" by (intro pow2_mono) simp
  moreover have "0 < x" using assms pow2_positive [of e] by linarith
  ultimately show False using ilog2_bounds [of x] assms by linarith
qed

lemma pow2_of_int: "0 \<le> e \<Longrightarrow> pow2 e = of_int (2 ^ nat e)"
  by (simp add: pow2_def)

lemma nearest_double_of_int:
  assumes "0 \<le> n" and "n \<le> 9007199254740992"
  shows "nearest_double (of_int n) = of_int n"
proof (cases "n = 0")
  case True
  then show ?thesis by simp
next
  case False
  with assms have n: "1 \<le> n" by simp
  define e where "e = ilog2 (of_int n)"
  have p: "pow2 53 = 9007199254740992" "pow2 54 = 18014398509481984"
    by (simp_all add: pow2_def)
  have "pow2 0 \<le> of_int n" using n by (simp add: pow2_def)
  then have e0: "0 \<le> e" unfolding e_def by (rule ilog2_ge)
  have npos: "(0 :: rat) < of_int n" using n by simp
  have "(of_int n :: rat) < pow2 54" using assms(2) by (simp add: p)
  with npos have "e < 54" unfolding e_def by (rule ilog2_less)
  then have e53: "e \<le> 53" by simp
  have E: "max e (- 1022) - 52 = e - 52" using e0 by simp
  have "\<exists>k. of_int n / pow2 (e - 52) = (of_int k :: rat)"
  proof (cases "e \<le> 52")
    case True
    then have "pow2 (52 - e) = of_int (2 ^ nat (52 - e))" by (intro pow2_of_int) simp
    moreover have "of_int n / pow2 (e - 52) = of_int n * pow2 (52 - e)"
      using pow2_minus [of "e - 52"] by simp
    ultimately have "of_int n / pow2 (e - 52) = (of_int (n * 2 ^ nat (52 - e)) :: rat)" by simp
    then show ?thesis by blast
  next
    case False
    with e53 have e: "e = 53" by simp
    from ilog2_bounds [OF npos] have "pow2 53 \<le> of_int n" by (simp add: e_def [symmetric] e)
    then have "9007199254740992 \<le> n" by (simp add: p)
    with assms(2) have "n = 9007199254740992" by simp
    then have "of_int n / pow2 (e - 52) = (of_int 4503599627370496 :: rat)"
      by (simp add: e pow2_def)
    then show ?thesis by blast
  qed
  then obtain k where k: "of_int n / pow2 (e - 52) = (of_int k :: rat)" by blast
  have "nearest_double (of_int n) = of_int (round_half_even (of_int n / pow2 (e - 52))) * pow2 (e - 52)"
    by (simp add: nearest_double_def Let_def e_def [symmetric] E)
  also have "\<dots> = of_int n / pow2 (e - 52) * pow2 (e - 52)" by (simp add: k)
  also have "\<dots> = of_int n" using pow2_positive [of "e - 52"] by simp
  finally show ?thesis .
qed


lemma large_double_is_int:
  assumes "nearest_double a = a" and "pow2 53 \<le> a"
  shows "\<exists>k. a = of_int k"
proof -
  define e where "e = max (ilog2 a) (- 1022) - 52"
  have "53 \<le> ilog2 a" using assms(2) by (rule ilog2_ge)
  then have "0 \<le> e" by (simp add: e_def)
  then have "pow2 e = of_int (2 ^ nat e)" by (rule pow2_of_int)
  moreover have "a = of_int (round_half_even (a / pow2 e)) * pow2 e"
    using assms(1) by (simp add: nearest_double_def Let_def e_def)
  ultimately have "a = of_int (round_half_even (a / pow2 e) * 2 ^ nat e)" by simp
  then show ?thesis by blast
qed

lemma floor_of_int_half: "\<lfloor>of_int k + 1 / 2 :: rat\<rfloor> = k"
  by (simp add: floor_eq_iff)

lemma Math_round_is_double:
  assumes "is_double x"
  shows "is_double (Math_round x)"
proof (cases x)
  case (Finite r)
  define n where "n = \<lfloor>r + 1 / 2\<rfloor>"
  have p: "pow2 53 = 9007199254740992" by (simp add: pow2_def)
  from assms Finite have r: "nearest_double \<bar>r\<bar> = \<bar>r\<bar>" "\<bar>r\<bar> < pow2 1024"
    by (simp_all add: is_double_def)
  have "nearest_double \<bar>of_int n\<bar> = \<bar>of_int n\<bar> \<and> \<bar>of_int n :: rat\<bar> < pow2 1024"
  proof (cases "\<bar>r\<bar> < pow2 53")
    case True
    then have "r + 1 / 2 < of_int 9007199254740993" "of_int (- 9007199254740992) \<le> r + 1 / 2"
      by (simp_all add: p abs_less_iff)
    then have "n < 9007199254740993" "- 9007199254740992 \<le> n"
      unfolding n_def by (simp_all only: floor_less_iff le_floor_iff)
    then have n: "0 \<le> \<bar>n\<bar>" "\<bar>n\<bar> \<le> 9007199254740992" by simp_all
    then have "nearest_double (of_int \<bar>n\<bar>) = of_int \<bar>n\<bar>" by (rule nearest_double_of_int)
    moreover have "(of_int \<bar>n\<bar> :: rat) \<le> pow2 53" using n(2) unfolding p by linarith
    moreover have "pow2 53 < pow2 1024" by (simp add: pow2_strict_mono)
    ultimately show ?thesis by simp
  next
    case False
    then have "pow2 53 \<le> \<bar>r\<bar>" by simp
    with r(1) obtain k where k: "\<bar>r\<bar> = of_int k" using large_double_is_int by blast
    then have "r = of_int k \<or> r = of_int (- k)" by (simp add: abs_if split: if_splits)
    then have "of_int n = r" unfolding n_def using floor_of_int_half by auto
    with r show ?thesis by simp
  qed
  then show ?thesis using Finite by (simp add: Math_round_def is_double_def n_def)
qed (simp_all add: Math_round_def)

lemma wordsPerMinute_is_double: "is_double (wordsPerMinute q)"
proof -
  have "nearest_double (of_int 150) = of_int 150" by (rule nearest_double_of_int) simp_all
  moreover have "(150 :: rat) < pow2 1024"
    using pow2_strict_mono [of 8 1024] by (simp add: pow2_def)
  ultimately have "is_double (Finite 150)" by (simp add: is_double_def)
  then show ?thesis
    by (simp add: wordsPerMinute_def Math_round_is_double js_divide_is_double
          split: option.splits)
qed

subsection \<open>Evaluation\<close>

text \<open>Evaluating a division of two finite non-zero doubles.\<close>

lemma floor_numeral_div: "\<lfloor>numeral a / numeral b :: rat\<rfloor> = numeral a div numeral b"
  using floor_divide_of_int_eq [of "numeral a" "numeral b", where ?'a = rat] by simp

lemma nearest_double_eval:
  assumes "ilog2 a = e0" and "max e0 (- 1022) - 52 = e" and "pow2 e = q"
    and "round_half_even (a / q) = m"
  shows "nearest_double a = of_int m * q"
  using assms by (simp add: nearest_double_def Let_def)

lemma js_divide_Finite:
  "a \<noteq> 0 \<Longrightarrow> b \<noteq> 0 \<Longrightarrow> js_divide (Finite a) (Finite b) = to_double (a / b)"
  by (simp add: js_divide_def Let_def)

lemmas log2_eval = ilog2_def log2_floor.simps log2_ceiling.simps
lemmas round_eval = round_half_even_def Let_def floor_numeral_div




lemma nearest_2000:
  "nearest_double 2000
     = 2000"
proof -
  have "nearest_double 2000
          = of_int 8796093022208000 * (1 / 4398046511104)"
  proof (rule nearest_double_eval [where ?e0.0 = "10" and e = "- 42"])
    show "ilog2 2000 = 10"
      by (simp add: log2_eval)
    show "pow2 (- 42) = 1 / 4398046511104"
      by (simp add: pow2_def)
    show "round_half_even (2000 / (1 / 4398046511104))
            = 8796093022208000"
      by (simp add: round_eval)
  qed simp
  then show ?thesis by simp
qed

lemma nearest_2:
  "nearest_double 2
     = 2"
proof -
  have "nearest_double 2
          = of_int 4503599627370496 * (1 / 2251799813685248)"
  proof (rule nearest_double_eval [where ?e0.0 = "1" and e = "- 51"])
    show "ilog2 2 = 1"
      by (simp add: log2_eval)
    show "pow2 (- 51) = 1 / 2251799813685248"
      by (simp add: pow2_def)
    show "round_half_even (2 / (1 / 2251799813685248))
            = 4503599627370496"
      by (simp add: round_eval)
  qed simp
  then show ?thesis by simp
qed








lemma duration_2000_ms: "js_divide (to_double 2000) (Finite 1000) = Finite 2"
  by (simp add: js_divide_Finite to_double_def nearest_2000 nearest_2 pow2_def)



text \<open>
  The smallest positive double as a duration: \<open>audioDuration / 60\<close> underflows to
  \<open>+0\<close>, the division by it gives \<open>Infinity\<close>, and so does \<open>Math.round\<close>.
\<close>

lemma smallest_double_minutes: "js_divide (Finite (pow2 (- 1074))) (Finite 60) = Finite 0"
proof -
  let ?q = "pow2 (- 1074)"
  have q: "0 < ?q" by (rule pow2_positive)
  have s: "?q = 64 * pow2 (- 1080)" "?q = 32 * pow2 (- 1079)"
    using pow2_add [of 6 "- 1080"] pow2_add [of 5 "- 1079"] by (simp_all add: pow2_def)
  have "nearest_double (?q / 60) = of_int 0 * ?q"
  proof (rule nearest_double_eval [where ?e0.0 = "- 1080" and e = "- 1074"])
    show "ilog2 (?q / 60) = - 1080"
    proof (rule ilog2_unique)
      show "pow2 (- 1080) \<le> ?q / 60"
        using pow2_positive [of "- 1080"] by (simp add: s(1))
      show "?q / 60 < pow2 (- 1080 + 1)"
        using pow2_positive [of "- 1079"] by (simp add: s(2))
    qed
    have "\<lfloor>1 / 60 :: rat\<rfloor> = 0" by (simp add: floor_eq_iff)
    then show "round_half_even (?q / 60 / ?q) = 0"
      using q by (simp add: round_half_even_def Let_def)
  qed simp_all
  then have "nearest_double (?q / 60) = 0" by simp
  moreover have "\<bar>?q / 60\<bar> = ?q / 60" using q by simp
  ultimately have "to_double (?q / 60) = Finite 0"
    using q pow2_positive [of 1024] by (simp add: to_double_def Let_def)
  then show ?thesis using q by (simp add: js_divide_Finite)
qed

lemma smallest_double_pace:
  "wordsPerMinute (sampleQuestion ''a b c'' (Finite (pow2 (- 1074)))) = PosInfinity"
proof -
  have "pow2 (- 1074) \<noteq> 0" using pow2_positive [of "- 1074"] by simp
  moreover have "js_divide (Finite 3) (Finite 0) = PosInfinity"
    by (simp add: js_divide_def negative_def)
  ultimately show ?thesis
    by (simp add: wordsPerMinute_def sampleQuestion_def truthy_def smallest_double_minutes
          Math_round_def)
qed

section \<open>Facts about the analysis service\<close>

lemma length_split_char: "length (split_char sep s) = Suc (count_list s sep)"
  by (induction s) (auto split: list.splits)

lemma getAnswerFeedback_missing:
  "(getAnswerFeedback client q = Inl (Error ''Answer is missing'')) = (\<not> answered q)"
  by (simp add: getAnswerFeedback_def answered_def split: option.splits)

lemma wordsPerMinute_eq:
  "wordsPerMinute q =
     (case audioDuration q of
        None \<Rightarrow> Finite 150
      | Some d \<Rightarrow>
          (case answer q of
             None \<Rightarrow> Finite 150
           | Some a \<Rightarrow>
               if d = Finite 0 \<or> d = NegZero \<or> d = NaN \<or> a = [] then Finite 150
               else Math_round
                      (js_divide (Finite (of_nat (Suc (count_list a CHR '' ''))))
                         (js_divide d (Finite 60)))))"
  by (simp add: wordsPerMinute_def truthy_def length_split_char split: option.splits)

lemmas eval_defs = run_def initialSystem_def initialState_def startInterview_begin_def
  startInterview_settle_def generateQuestionsFromJD_def PRESET_QUESTIONS_def toQuestions_def
  map_index_def startListening_def stopListening_def onresult_def twoFinals_def runEffects_def
  Let_def duration_2000_ms






section \<open>Facts about the handlers\<close>

lemma length_map_index [simp]: "length (map_index f xs) = length xs"
  by (simp add: map_index_def)

lemma nth_map_index [simp]: "i < length xs \<Longrightarrow> map_index f xs ! i = f i (xs ! i)"
  by (simp add: map_index_def nth_enumerate_eq)

lemma map_index_Nil [simp]: "map_index f [] = []"
  by (simp add: map_index_def)

lemma in_set_map_index:
  "(y \<in> set (map_index f xs)) = (\<exists>i<length xs. y = f i (xs ! i))"
  by (auto simp: in_set_conv_nth)

subsection \<open>Question acquisition\<close>


lemma map_qid_toQuestions: "map qid (toQuestions qs) = [0..<length qs]"
  by (rule nth_equalityI) (simp_all add: toQuestions_def)

lemma length_toQuestions [simp]: "length (toQuestions qs) = length qs"
  by (simp add: toQuestions_def)

lemma toQuestions_blank:
  "q \<in> set (toQuestions qs) \<Longrightarrow>
     answer q = None \<and> feedback q = None \<and> audioDuration q = None"
  by (auto simp: toQuestions_def in_set_map_index)





subsection \<open>Reset\<close>

text \<open>
  C6. From any state, \<open>resetInterview\<close> gives the phase \<open>NOT_STARTED\<close>, no questions,
  index 0, an empty job description and two empty transcript buffers, and applying it twice
  is the same as applying it once.
\<close>

theorem resetInterview_idempotent:
  "interviewState (resetInterview s) = NOT_STARTED
   \<and> questions (resetInterview s) = []
   \<and> currentQuestionIndex (resetInterview s) = 0
   \<and> jobDescription (resetInterview s) = []
   \<and> finalTranscript (resetInterview s) = []
   \<and> interimTranscript (resetInterview s) = []
   \<and> resetInterview (resetInterview s) = resetInterview s"
  by (simp add: resetInterview_def)

subsection \<open>Recognition events\<close>

lemma onresult_loop_eq:
  "onresult_loop rs (interim, final) =
     (interim @ concat (map transcript (filter (\<lambda>r. \<not> isFinal r) rs)),
      final @ concat (map transcript (filter isFinal rs)))"
  by (induction rs arbitrary: interim final) auto

lemma onresult_eq:
  "onresult event s =
     s\<lparr>interimTranscript :=
         concat (map transcript
                   (filter (\<lambda>r. \<not> isFinal r) (drop (resultIndex event) (results event)))),
       finalTranscript :=
         (if concat (map transcript
                       (filter isFinal (drop (resultIndex event) (results event)))) = []
          then finalTranscript s
          else finalTranscript s
                 @ concat (map transcript
                             (filter isFinal (drop (resultIndex event) (results event))))
                 @ ''. '')\<rparr>"
  by (simp add: onresult_def onresult_loop_eq Let_def)

text \<open>
  C9, as the code has it. A recognition event replaces the interim buffer by the
  concatenation of the non-final fragments from \<open>resultIndex\<close> on. The final fragments
  from \<open>resultIndex\<close> on are concatenated in order, and when this text is not empty it is
  appended to the final buffer followed by one delimiter \<open>''. ''\<close>: one delimiter per
  event, not one per fragment.
\<close>

theorem onresult_buffers:
  "onresult event s =
     s\<lparr>interimTranscript :=
         concat (map transcript
                   (filter (\<lambda>r. \<not> isFinal r) (drop (resultIndex event) (results event)))),
       finalTranscript :=
         (if concat (map transcript
                       (filter isFinal (drop (resultIndex event) (results event)))) = []
          then finalTranscript s
          else finalTranscript s
                 @ concat (map transcript
                             (filter isFinal (drop (resultIndex event) (results event))))
                 @ ''. '')\<rparr>"
  by (rule onresult_eq)

theorem onresult_buffers_witness:
  "onresult twoFinals
     ((initialState True)\<lparr>interimTranscript := ''x'', finalTranscript := ''y. ''\<rparr>)
     = (initialState True)\<lparr>interimTranscript := ''c'', finalTranscript := ''y. ab. ''\<rparr>"
  using onresult_buffers [of twoFinals
          "(initialState True)\<lparr>interimTranscript := ''x'', finalTranscript := ''y. ''\<rparr>"]
  by (simp add: twoFinals_def)

text \<open>
  C9 as stated fails when one event delivers two final fragments: \<open>''a''\<close> and \<open>''b''\<close>
  are stored as \<open>''ab. ''\<close>, with one delimiter, and not as \<open>''a. b. ''\<close>.
\<close>

theorem delimiter_per_fragment_counterexample:
  "finalTranscript (onresult twoFinals (initialState True)) = ''ab. ''
   \<and> finalTranscript (onresult twoFinals (initialState True)) \<noteq> ''a. b. ''"
  by (simp add: onresult_def twoFinals_def initialState_def)

lemma onresult_fields [simp]:
  "recognitionRef (onresult e s) = recognitionRef s"
  "currentQuestionIndex (onresult e s) = currentQuestionIndex s"
  "questions (onresult e s) = questions s"
  "recordingStartTime (onresult e s) = recordingStartTime s"
  "interviewState (onresult e s) = interviewState s"
  "isListening (onresult e s) = isListening s"
  "isSpeaking (onresult e s) = isSpeaking s"
  "jobDescription (onresult e s) = jobDescription s"
  by (simp_all add: onresult_def Let_def split: prod.splits)

lemma foldl_onresult_fields [simp]:
  "recognitionRef (foldl (\<lambda>s e. onresult e s) s evs) = recognitionRef s"
  "currentQuestionIndex (foldl (\<lambda>s e. onresult e s) s evs) = currentQuestionIndex s"
  "questions (foldl (\<lambda>s e. onresult e s) s evs) = questions s"
  by (induction evs arbitrary: s) simp_all

lemma foldl_onresult_final:
  "finalTranscript (foldl (\<lambda>s e. onresult e s) s evs) =
     finalTranscript s @
     concat (map (\<lambda>e. if concat (map transcript
                                 (filter isFinal (drop (resultIndex e) (results e)))) = []
                       then []
                       else concat (map transcript
                                      (filter isFinal (drop (resultIndex e) (results e))))
                              @ ''. '') evs)"
  by (induction evs arbitrary: s) (simp_all add: onresult_eq)

lemma stopListening_answer:
  "recognitionRef s \<Longrightarrow> currentQuestionIndex s < length (questions s) \<Longrightarrow>
   answer (questions (stopListening t s) ! currentQuestionIndex s) = Some (finalTranscript s)"
  by (simp add: stopListening_def Let_def)

text \<open>
  C8. Start a capture, deliver any sequence of recognition events, stop the capture: the
  answer stored for the current question is exactly the final buffer, which is built from
  the final fragments of the events alone (each event's final text followed by the
  delimiter); when no event carries a final fragment the answer is the empty string,
  whatever the interim fragments were.
\<close>

theorem answer_is_final_buffer:
  assumes "recognitionRef s" and "currentQuestionIndex s < length (questions s)"
  shows "answer (questions (stopListening t1
                   (foldl (\<lambda>s e. onresult e s) (startListening t0 s) evs))
                 ! currentQuestionIndex s)
           = Some (finalTranscript (foldl (\<lambda>s e. onresult e s) (startListening t0 s) evs))
         \<and> finalTranscript (foldl (\<lambda>s e. onresult e s) (startListening t0 s) evs)
           = concat (map (\<lambda>e. if concat (map transcript
                                       (filter isFinal (drop (resultIndex e) (results e)))) = []
                               then []
                               else concat (map transcript
                                       (filter isFinal (drop (resultIndex e) (results e))))
                                    @ ''. '')
                       evs)
         \<and> ((\<forall>e \<in> set evs. \<forall>r \<in> set (drop (resultIndex e) (results e)). \<not> isFinal r) \<longrightarrow>
              answer (questions (stopListening t1
                        (foldl (\<lambda>s e. onresult e s) (startListening t0 s) evs))
                      ! currentQuestionIndex s) = Some [])"
proof -
  let ?s1 = "foldl (\<lambda>s e. onresult e s) (startListening t0 s) evs"
  let ?text = "\<lambda>e. if concat (map transcript
                              (filter isFinal (drop (resultIndex e) (results e)))) = []
                     then []
                     else concat (map transcript
                              (filter isFinal (drop (resultIndex e) (results e)))) @ ''. ''"
  have start: "recognitionRef (startListening t0 s)"
    "currentQuestionIndex (startListening t0 s) = currentQuestionIndex s"
    "questions (startListening t0 s) = questions s"
    "finalTranscript (startListening t0 s) = []"
    using assms by (simp_all add: startListening_def)
  have a: "answer (questions (stopListening t1 ?s1) ! currentQuestionIndex s)
             = Some (finalTranscript ?s1)"
    using stopListening_answer [of ?s1 t1] assms start by simp
  have b: "finalTranscript ?s1 = concat (map ?text evs)"
    by (simp add: foldl_onresult_final start)
  have c: "finalTranscript ?s1 = []"
    if none: "\<forall>e \<in> set evs. \<forall>r \<in> set (drop (resultIndex e) (results e)). \<not> isFinal r"
  proof -
    have "filter isFinal (drop (resultIndex e) (results e)) = []" if "e \<in> set evs" for e
      using that none by (auto simp: filter_empty_conv)
    then have "map ?text evs = map (\<lambda>e. []) evs"
      by (intro map_cong) simp_all
    then show ?thesis unfolding b by simp
  qed
  show ?thesis
  proof (intro conjI impI)
    show "answer (questions (stopListening t1 ?s1) ! currentQuestionIndex s)
            = Some (finalTranscript ?s1)"
      by (rule a)
    show "finalTranscript ?s1 = concat (map ?text evs)"
      by (rule b)
    assume "\<forall>e \<in> set evs. \<forall>r \<in> set (drop (resultIndex e) (results e)). \<not> isFinal r"
    then have "finalTranscript ?s1 = []" by (rule c)
    then show "answer (questions (stopListening t1 ?s1) ! currentQuestionIndex s) = Some []"
      by (simp only: a)
  qed
qed

theorem answer_is_final_buffer_witness:
  "recognitionRef oneQuestionState
   \<and> currentQuestionIndex oneQuestionState < length (questions oneQuestionState)
   \<and> answer (questions (stopListening 5000
               (foldl (\<lambda>s e. onresult e s) (startListening 1000 oneQuestionState)
                  [interimOnly]))
             ! currentQuestionIndex oneQuestionState) = Some []"
proof -
  have 1: "recognitionRef oneQuestionState"
    by (simp add: oneQuestionState_def initialState_def)
  have 2: "currentQuestionIndex oneQuestionState < length (questions oneQuestionState)"
    by (simp add: oneQuestionState_def initialState_def)
  from answer_is_final_buffer [OF 1 2, of 5000 1000 "[interimOnly]"] 1 2
  show ?thesis by (simp add: interimOnly_def)
qed

section \<open>Facts about the feedback pipeline\<close>

lemma fetchFeedback_advance_Some:
  "fetchFeedback_advance i u s = (Some (j, u'), s') \<Longrightarrow>
     u' = u \<and> s' = s \<and> i \<le> j \<and> j < length u \<and> answered (u ! j)"
proof (induction i u s rule: fetchFeedback_advance.induct)
  case (1 i u s)
  show ?case
  proof (cases "i < length u \<and> \<not> answered (u ! i)")
    case True
    with "1.prems" have "fetchFeedback_advance (i + 1) u s = (Some (j, u'), s')"
      by (simp add: fetchFeedback_advance.simps [of i])
    with "1.IH" True show ?thesis by force
  next
    case False
    with "1.prems" show ?thesis
      by (auto simp: fetchFeedback_advance.simps [of i] split: if_splits)
  qed
qed

lemma fetchFeedback_advance_None:
  "fetchFeedback_advance i u s = (None, s') \<Longrightarrow> s' = s\<lparr>interviewState := REVIEWING\<rparr>"
proof (induction i u s rule: fetchFeedback_advance.induct)
  case (1 i u s)
  show ?case
  proof (cases "i < length u \<and> \<not> answered (u ! i)")
    case True
    with "1.prems" have "fetchFeedback_advance (i + 1) u s = (None, s')"
      by (simp add: fetchFeedback_advance.simps [of i])
    with "1.IH" True show ?thesis by force
  next
    case False
    with "1.prems" show ?thesis
      by (auto simp: fetchFeedback_advance.simps [of i] split: if_splits)
  qed
qed

lemma fetchFeedback_for_eq:
  "u = questions s \<Longrightarrow>
   fetchFeedback_for client i u s calls =
     (s\<lparr>questions :=
          take i u @
          map (\<lambda>q. if answered q
                    then (case getAnswerFeedback client q of
                            Inr fb \<Rightarrow> q\<lparr>feedback := Some fb\<rparr>
                          | Inl e \<Rightarrow> q)
                    else q) (drop i u),
        interviewState := REVIEWING\<rparr>,
      calls @ filter answered (drop i u))"
proof (induction client i u s calls rule: fetchFeedback_for.induct)
  case (1 client i u s calls)
  let ?f = "\<lambda>q. if answered q
                 then (case getAnswerFeedback client q of
                         Inr fb \<Rightarrow> q\<lparr>feedback := Some fb\<rparr>
                       | Inl e \<Rightarrow> q)
                 else q"
  note unfold = fetchFeedback_for.simps [of client i u s calls]
  show ?case
  proof (cases "i < length u")
    case False
    then have "fetchFeedback_for client i u s calls = (s\<lparr>interviewState := REVIEWING\<rparr>, calls)"
      by (simp only: unfold if_False)
    moreover have "take i u @ map ?f (drop i u) = questions s"
      using False "1.prems" by simp
    moreover have "drop i u = []" using False by simp
    ultimately show ?thesis by simp
  next
    case lt: True
    then have dr: "drop i u = u ! i # drop (Suc i) u"
      by (simp add: Cons_nth_drop_Suc)
    have tk: "take (Suc i) u = take i u @ [u ! i]"
      using lt by (simp add: take_Suc_conv_app_nth)
    show ?thesis
    proof (cases "answered (u ! i)")
      case False
      from lt False have "fetchFeedback_for client i u s calls
                            = fetchFeedback_for client (i + 1) u s calls"
        by (simp only: unfold if_True if_False)
      also have "\<dots> = (s\<lparr>questions := take (i + 1) u @ map ?f (drop (i + 1) u),
                           interviewState := REVIEWING\<rparr>,
                         calls @ filter answered (drop (i + 1) u))"
        by (rule "1.IH"(2) [OF lt False "1.prems"])
      also have "take (i + 1) u @ map ?f (drop (i + 1) u) = take i u @ map ?f (drop i u)"
        using False by (simp add: dr tk)
      also have "filter answered (drop (i + 1) u) = filter answered (drop i u)"
        using False by (simp add: dr)
      finally show ?thesis .
    next
      case ans: True
      obtain u' s' where st: "fetchFeedback_settle (getAnswerFeedback client (u ! i)) i u s = (u', s')"
        by (cases "fetchFeedback_settle (getAnswerFeedback client (u ! i)) i u s") auto
      have p1: "u' = questions s'"
        using st "1.prems" by (auto simp: fetchFeedback_settle_def Let_def split: sum.splits)
      have p2: "s'\<lparr>questions := X, interviewState := REVIEWING\<rparr>
                  = s\<lparr>questions := X, interviewState := REVIEWING\<rparr>" for X
        using st by (auto simp: fetchFeedback_settle_def Let_def split: sum.splits)
      have p3: "take (i + 1) u' = take i u @ [?f (u ! i)]" "drop (i + 1) u' = drop (Suc i) u"
        using st lt ans
        by (auto simp: fetchFeedback_settle_def Let_def take_Suc_conv_app_nth split: sum.splits)
      have p4: "take (i + 1) u' @ map ?f (drop (i + 1) u') = take i u @ map ?f (drop i u)"
        by (simp only: p3 dr list.map append_assoc append_Cons append_Nil)
      have p5: "(calls @ [u ! i]) @ filter answered (drop (i + 1) u')
                  = calls @ filter answered (drop i u)"
        using ans by (simp only: p3 dr filter.simps if_True append_assoc append_Cons append_Nil)
      from lt ans st have "fetchFeedback_for client i u s calls
                            = fetchFeedback_for client (i + 1) u' s' (calls @ [u ! i])"
        by (simp only: unfold if_True prod.case)
      also have "\<dots> = (s'\<lparr>questions := take (i + 1) u' @ map ?f (drop (i + 1) u'),
                            interviewState := REVIEWING\<rparr>,
                         (calls @ [u ! i]) @ filter answered (drop (i + 1) u'))"
        by (rule "1.IH"(1) [OF lt ans st [symmetric] p1])
      also have "\<dots> = (s\<lparr>questions := take i u @ map ?f (drop i u),
                            interviewState := REVIEWING\<rparr>,
                         calls @ filter answered (drop i u))"
        by (simp only: p2 p4 p5)
      finally show ?thesis .
    qed
  qed
qed

lemma fetchFeedback_eq:
  "fetchFeedback client s =
     (s\<lparr>questions :=
          map (\<lambda>q. if answered q
                    then (case getAnswerFeedback client q of
                            Inr fb \<Rightarrow> q\<lparr>feedback := Some fb\<rparr>
                          | Inl e \<Rightarrow> q)
                    else q) (questions s),
        interviewState := REVIEWING\<rparr>,
      filter answered (questions s))"
proof -
  have "fetchFeedback client s = fetchFeedback_for client 0 (questions s) s []"
    by (simp only: fetchFeedback_def)
  also note fetchFeedback_for_eq [OF refl, where s = s and client = client and i = 0 and calls = "[]"]
  finally show ?thesis by (simp only: take_0 drop_0 append_Nil)
qed

text \<open>
  The loop run to its end is the loop run one await at a time, each call settling with
  what the client returns.
\<close>

lemma fetchFeedback_advance_for:
  "fetchFeedback_for client i u s calls =
     (case fetchFeedback_advance i u s of
        (None, s') \<Rightarrow> (s', calls)
      | (Some (j, u'), s') \<Rightarrow>
          (case fetchFeedback_settle (getAnswerFeedback client (u' ! j)) j u' s' of
             (u'', s'') \<Rightarrow> fetchFeedback_for client (j + 1) u'' s'' (calls @ [u' ! j])))"
proof (induction i u s rule: fetchFeedback_advance.induct)
  case (1 i u s)
  show ?case
  proof (cases "i < length u \<and> \<not> answered (u ! i)")
    case True
    then have "fetchFeedback_for client i u s calls = fetchFeedback_for client (i + 1) u s calls"
      by (simp add: fetchFeedback_for.simps [of client i])
    moreover from True have "fetchFeedback_advance i u s = fetchFeedback_advance (i + 1) u s"
      by (simp add: fetchFeedback_advance.simps [of i])
    ultimately show ?thesis using "1.IH" True by simp
  next
    case False
    then show ?thesis
      by (auto simp: fetchFeedback_for.simps [of client i] fetchFeedback_advance.simps [of i])
  qed
qed

lemma sorted_ids_filter:
  "sorted_wrt (<) (map qid qs) \<Longrightarrow> sorted_wrt (<) (map qid (filter P qs))"
  by (simp add: sorted_wrt_map sorted_wrt_filter)

lemma threeAnswered_questions:
  "questions threeAnswered =
     [\<lparr>qid = 0, qtext = ''Q0'', answer = Some ''a b'', feedback = None, audioDuration = Some (Finite 2)\<rparr>,
      \<lparr>qid = 1, qtext = ''Q1'', answer = Some ''a b'', feedback = None, audioDuration = Some (Finite 2)\<rparr>,
      \<lparr>qid = 2, qtext = ''Q2'', answer = Some ''a b'', feedback = None, audioDuration = Some (Finite 2)\<rparr>]"
  by (simp add: threeAnswered_def toQuestions_def map_index_def)

section \<open>Reachable states\<close>

subsection \<open>The invariant holds\<close>

lemma invariant_initial: "invariant (initialSystem b)"
  by (simp add: invariant_def initialSystem_def initialState_def)

lemma startInterview_settle_eq:
  "startInterview_settle r s =
     s\<lparr>questions := toQuestions (case r of Inr qs \<Rightarrow> qs | Inl e \<Rightarrow> PRESET_QUESTIONS),
       currentQuestionIndex := 0, interviewState := INTERVIEWING\<rparr>"
  by (simp add: startInterview_settle_def split: sum.splits)

lemma toQuestions_atomic:
  "\<forall>q \<in> set (toQuestions qs). (answer q = None) = (audioDuration q = None)"
  by (simp add: toQuestions_blank)

lemma toQuestions_Nil_iff [simp]: "(toQuestions qs = []) = (qs = [])"
  using length_toQuestions [of qs] by (metis length_0_conv)

lemma invariant_ClickStartWithJobDescription:
  "invariant sys \<Longrightarrow> invariant (step sys ClickStartWithJobDescription)"
  by (auto simp: invariant_def split: option.splits)

lemma invariant_ChangeJobDescription:
  "invariant sys \<Longrightarrow> invariant (step sys (ChangeJobDescription v))"
  by (auto simp: invariant_def split: option.splits)

lemma invariant_ClickStartInterview:
  "invariant sys \<Longrightarrow> invariant (step sys ClickStartInterview)"
  by (auto simp: invariant_def startInterview_begin_def startInterview_settle_eq
        map_qid_toQuestions toQuestions_blank split: option.splits)

lemma invariant_QuestionsSettled:
  "invariant sys \<Longrightarrow> invariant (step sys (QuestionsSettled reply))"
  by (auto simp: invariant_def startInterview_settle_eq
        map_qid_toQuestions toQuestions_blank split: option.splits)

lemma invariant_RecognitionResult:
  "invariant sys \<Longrightarrow> invariant (step sys (RecognitionResult event))"
  by (auto simp: invariant_def split: option.splits)

lemma invariant_Utterance:
  "invariant sys \<Longrightarrow> invariant (step sys UtteranceStart)"
  "invariant sys \<Longrightarrow> invariant (step sys UtteranceEnd)"
  by (auto simp: invariant_def split: option.splits)

lemma invariant_ClickReset:
  "invariant sys \<Longrightarrow> invariant (step sys ClickReset)"
  by (auto simp: invariant_def resetInterview_def split: option.splits)

lemma startListening_fields:
  "interviewState (startListening t s) = interviewState s"
  "questions (startListening t s) = questions s"
  "currentQuestionIndex (startListening t s) = currentQuestionIndex s"
  "recognitionRef (startListening t s) = recognitionRef s"
  "isListening (startListening t s) = (isListening s \<or> recognitionRef s)"
  by (simp_all add: startListening_def)

lemma stopListening_questions:
  "length (questions (stopListening t s)) = length (questions s)"
  "map qid (questions (stopListening t s)) = map qid (questions s)"
  by (auto simp: stopListening_def Let_def intro!: nth_equalityI)

lemma stopListening_atomic:
  assumes "\<forall>q \<in> set (questions s). (answer q = None) = (audioDuration q = None)"
  shows "\<forall>q \<in> set (questions (stopListening t s)). (answer q = None) = (audioDuration q = None)"
  using assms by (auto simp: stopListening_def Let_def in_set_map_index)

lemma stopListening_phase:
  "recognitionRef s \<Longrightarrow>
   interviewState (stopListening t s)
     = (if int (currentQuestionIndex s) < int (length (questions s)) - 1
        then interviewState s else AWAITING_FEEDBACK)"
  "recognitionRef s \<Longrightarrow>
   currentQuestionIndex (stopListening t s)
     = (if int (currentQuestionIndex s) < int (length (questions s)) - 1
        then currentQuestionIndex s + 1 else currentQuestionIndex s)"
  "recognitionRef (stopListening t s) = recognitionRef s"
  "isListening (stopListening t s) = (isListening s \<and> \<not> recognitionRef s)"
  by (simp_all add: stopListening_def Let_def)

lemma runEffects_same:
  "interviewState (app sys) = interviewState before \<Longrightarrow> runEffects before sys = sys"
  by (simp add: runEffects_def)

lemma runEffects_launch:
  assumes "interviewState before \<noteq> AWAITING_FEEDBACK"
    and "interviewState (app sys) = AWAITING_FEEDBACK"
  shows "(\<exists>j. pending (runEffects before sys) = Some (j, questions (app sys))
              \<and> j < length (questions (app sys)) \<and> answered (questions (app sys) ! j)
              \<and> app (runEffects before sys) = app sys)
         \<or> (pending (runEffects before sys) = None
             \<and> app (runEffects before sys) = (app sys)\<lparr>interviewState := REVIEWING\<rparr>)"
proof (cases "fetchFeedback_advance 0 (questions (app sys)) (app sys)")
  case (Pair p s')
  show ?thesis
  proof (cases p)
    case None
    with Pair fetchFeedback_advance_None [of 0 "questions (app sys)" "app sys" s'] assms
    show ?thesis by (simp add: runEffects_def)
  next
    case (Some ju)
    obtain j u where "ju = (j, u)" by (cases ju)
    with Some Pair fetchFeedback_advance_Some [of 0 "questions (app sys)" "app sys" j u s'] assms
    show ?thesis by (simp add: runEffects_def)
  qed
qed

lemma runEffects_other:
  "generating (runEffects before sys) = generating sys"
  by (simp add: runEffects_def split: prod.splits)

lemma invariant_ClickMic:
  assumes inv: "invariant sys"
  shows "invariant (step sys (ClickMic now))"
proof (cases "interviewState (app sys) = INTERVIEWING \<and> \<not> isSpeaking (app sys)")
  case False
  with inv show ?thesis by auto
next
  case en: True
  show ?thesis
  proof (cases "isListening (app sys)")
    case False
    have "step sys (ClickMic now) = sys\<lparr>app := startListening now (app sys)\<rparr>"
      using en False by (simp add: runEffects_same startListening_fields)
    with inv show ?thesis
      by (auto simp: invariant_def startListening_fields split: option.splits)
  next
    case lis: True
    with inv have rr: "recognitionRef (app sys)" by (simp add: invariant_def)
    let ?a = "stopListening now (app sys)"
    show ?thesis
    proof (cases "int (currentQuestionIndex (app sys)) < int (length (questions (app sys))) - 1")
      case True
      have "step sys (ClickMic now) = sys\<lparr>app := ?a\<rparr>"
        using en lis True rr by (simp add: runEffects_same stopListening_phase)
      with inv True rr en show ?thesis
        using stopListening_atomic [of "app sys" now]
        by (auto simp: invariant_def stopListening_phase stopListening_questions
              split: option.splits)
    next
      case False
      have st: "step sys (ClickMic now) = runEffects (app sys) (sys\<lparr>app := ?a\<rparr>)"
        using en lis by simp
      have ph: "interviewState ?a = AWAITING_FEEDBACK"
        using False rr by (simp add: stopListening_phase)
      from runEffects_launch [of "app sys" "sys\<lparr>app := ?a\<rparr>"] en ph
      consider (launched) j where "pending (step sys (ClickMic now)) = Some (j, questions ?a)"
          "j < length (questions ?a)" "answered (questions ?a ! j)"
          "app (step sys (ClickMic now)) = ?a"
        | (finished) "pending (step sys (ClickMic now)) = None"
          "app (step sys (ClickMic now)) = ?a\<lparr>interviewState := REVIEWING\<rparr>"
        unfolding st by auto
      moreover have gen: "generating (step sys (ClickMic now)) = generating sys"
        unfolding st by (simp add: runEffects_other)
      ultimately show ?thesis
      proof cases
        case launched
        with inv ph rr en gen show ?thesis
          using stopListening_atomic [of "app sys" now]
          by (auto simp: invariant_def stopListening_phase
                stopListening_questions split: option.splits)
      next
        case finished
        with inv ph rr en gen show ?thesis
          using stopListening_atomic [of "app sys" now]
          by (auto simp: invariant_def stopListening_phase
                stopListening_questions split: option.splits)
      qed
    qed
  qed
qed

lemma fetchFeedback_settle_cases:
  assumes "i < length u"
  shows "fetchFeedback_settle r i u s = (u, s)
         \<or> (\<exists>fb. r = Inr fb
               \<and> fetchFeedback_settle r i u s
                   = (u[i := (u ! i)\<lparr>feedback := Some fb\<rparr>],
                      s\<lparr>questions := u[i := (u ! i)\<lparr>feedback := Some fb\<rparr>]\<rparr>))"
  by (cases r) (simp_all add: fetchFeedback_settle_def Let_def)

lemma update_feedback_atomic:
  assumes "\<forall>q \<in> set u. (answer q = None) = (audioDuration q = None)" and "i < length u"
  shows "\<forall>q \<in> set (u[i := (u ! i)\<lparr>feedback := fb\<rparr>]).
           (answer q = None) = (audioDuration q = None)"
proof
  fix q assume "q \<in> set (u[i := (u ! i)\<lparr>feedback := fb\<rparr>])"
  then have "q = (u ! i)\<lparr>feedback := fb\<rparr> \<or> q \<in> set u"
    using set_update_subset_insert [of u i] by auto
  moreover have "u ! i \<in> set u" using assms(2) by simp
  ultimately show "(answer q = None) = (audioDuration q = None)"
    using assms(1) by auto
qed

lemma update_feedback_qid:
  "i < length u \<Longrightarrow> map qid (u[i := (u ! i)\<lparr>feedback := fb\<rparr>]) = map qid u"
  by (simp add: map_update list_update_same_conv)

lemma fetchFeedback_resume_cases:
  assumes "fetchFeedback_settle r i u s = (u', s')"
  shows "(\<exists>j. fetchFeedback_resume r i u s = (Some (j, u'), s')
              \<and> i < j \<and> j < length u' \<and> answered (u' ! j))
         \<or> fetchFeedback_resume r i u s = (None, s'\<lparr>interviewState := REVIEWING\<rparr>)"
proof (cases "fetchFeedback_advance (i + 1) u' s'")
  case (Pair p s'')
  show ?thesis
  proof (cases p)
    case None
    with Pair fetchFeedback_advance_None [of "i + 1" u' s' s''] assms
    show ?thesis by (simp add: fetchFeedback_resume_def)
  next
    case (Some ju)
    obtain j w where "ju = (j, w)" by (cases ju)
    with Some Pair fetchFeedback_advance_Some [of "i + 1" u' s' j w s''] assms
    show ?thesis by (simp add: fetchFeedback_resume_def)
  qed
qed

lemma invariant_FeedbackSettled:
  assumes inv: "invariant sys"
  shows "invariant (step sys (FeedbackSettled reply))"
proof (cases "pending sys")
  case None
  with inv show ?thesis by simp
next
  case (Some iu)
  obtain i u where iu: "iu = (i, u)" by (cases iu)
  let ?r = "getAnswerFeedback (\<lambda>prompt. reply) (u ! i)"
  from inv Some iu have pre: "interviewState (app sys) = AWAITING_FEEDBACK" "i < length u"
      "questions (app sys) = u" "\<not> generating sys"
      "\<forall>q \<in> set u. (answer q = None) = (audioDuration q = None)"
      "map qid u = [0..<length u]"
      "isListening (app sys) \<longrightarrow> recognitionRef (app sys)"
    by (auto simp: invariant_def)
  obtain u' s' where st: "fetchFeedback_settle ?r i u (app sys) = (u', s')"
    by (cases "fetchFeedback_settle ?r i u (app sys)") auto
  have props: "interviewState s' = AWAITING_FEEDBACK \<and> questions s' = u'
               \<and> length u' = length u \<and> map qid u' = [0..<length u']
               \<and> (\<forall>q \<in> set u'. (answer q = None) = (audioDuration q = None))
               \<and> (isListening s' \<longrightarrow> recognitionRef s')"
    using fetchFeedback_settle_cases [OF pre(2), of ?r "app sys"] st pre
          update_feedback_atomic [OF pre(5) pre(2)] update_feedback_qid [OF pre(2)]
    by auto
  have stp: "step sys (FeedbackSettled reply)
               = (case fetchFeedback_resume ?r i u (app sys) of
                    (p, s'') \<Rightarrow> sys\<lparr>app := s'', pending := p\<rparr>)"
    using Some iu by simp
  from fetchFeedback_resume_cases [OF st]
  show ?thesis
  proof (elim disjE exE conjE)
    fix j assume "fetchFeedback_resume ?r i u (app sys) = (Some (j, u'), s')"
      "i < j" "j < length u'" "answered (u' ! j)"
    then have "step sys (FeedbackSettled reply) = sys\<lparr>app := s', pending := Some (j, u')\<rparr>"
      and "j < length u'" and "answered (u' ! j)"
      by (simp_all add: stp del: step.simps)
    with props pre(4) show ?thesis
      by (simp add: invariant_def del: step.simps)
  next
    assume "fetchFeedback_resume ?r i u (app sys) = (None, s'\<lparr>interviewState := REVIEWING\<rparr>)"
    then have "step sys (FeedbackSettled reply)
                 = sys\<lparr>app := s'\<lparr>interviewState := REVIEWING\<rparr>, pending := None\<rparr>"
      by (simp add: stp del: step.simps)
    with props pre(4) show ?thesis
      by (simp add: invariant_def del: step.simps)
  qed
qed

lemma invariant_step: "invariant sys \<Longrightarrow> invariant (step sys e)"
  by (cases e)
     (simp_all only: invariant_ClickStartWithJobDescription invariant_ChangeJobDescription
        invariant_ClickStartInterview invariant_QuestionsSettled invariant_ClickMic
        invariant_RecognitionResult invariant_Utterance invariant_FeedbackSettled
        invariant_ClickReset)

lemma invariant_foldl: "invariant sys \<Longrightarrow> invariant (foldl step sys es)"
  by (induction es arbitrary: sys) (simp_all add: invariant_step)

lemma invariant_run: "invariant (run b es)"
  by (simp add: run_def invariant_foldl invariant_initial)

subsection \<open>Sample runs\<close>

lemma presetSession_eval:
  "map (\<lambda>q. (answer q, audioDuration q)) (questions (app (run True presetSession)))
     = [(Some ''ab. '', Some (Finite 2)), (None, None), (None, None), (None, None),
        (None, None)]"
  "currentQuestionIndex (app (run True presetSession)) = 1"
  "interviewState (app (run True presetSession)) = INTERVIEWING"
  by (simp_all add: presetSession_def eval_defs)

lemma emptyGeneration_eval:
  "interviewState (app (run True emptyGeneration)) = INTERVIEWING"
  "questions (app (run True emptyGeneration)) = []"
  "currentQuestionIndex (app (run True emptyGeneration)) = 0"
  by (simp_all add: emptyGeneration_def eval_defs)

lemma run_snoc: "run b (es @ [e]) = step (run b es) e"
  by (simp add: run_def)

subsection \<open>Reset and the pipeline\<close>

lemma fetchFeedback_advance_questions:
  "questions (snd (fetchFeedback_advance i u s)) = questions s"
proof (cases "fetchFeedback_advance i u s")
  case (Pair p s')
  show ?thesis
  proof (cases p)
    case None
    with Pair fetchFeedback_advance_None [of i u s s'] show ?thesis by simp
  next
    case (Some ju)
    obtain j w where "ju = (j, w)" by (cases ju)
    with Some Pair fetchFeedback_advance_Some [of i u s j w s'] show ?thesis by simp
  qed
qed

lemma fetchFeedback_resume_writes:
  "questions (snd (fetchFeedback_resume (Inr fb) i u s)) = u[i := (u ! i)\<lparr>feedback := Some fb\<rparr>]"
  by (simp add: fetchFeedback_resume_def fetchFeedback_settle_def Let_def
        fetchFeedback_advance_questions)






subsection \<open>Answers and durations\<close>

lemma stopListening_sets_both:
  "q \<in> set (questions (stopListening t s)) \<Longrightarrow>
     q \<in> set (questions s) \<or> (answer q \<noteq> None \<and> audioDuration q \<noteq> None)"
  by (auto simp: stopListening_def Let_def in_set_map_index split: if_splits)

text \<open>The duration that \<open>stopListening\<close> stores is a double.\<close>

lemma stopListening_duration_is_double:
  "q \<in> set (questions (stopListening t s)) \<Longrightarrow>
     q \<in> set (questions s) \<or> (\<exists>d. audioDuration q = Some d \<and> is_double d)"
  by (auto simp: stopListening_def Let_def in_set_map_index js_divide_is_double
        split: if_splits option.splits)

text \<open>
  C7. In every reachable state each question has \<open>answer\<close> and \<open>audioDuration\<close> both
  absent or both present; \<open>stopListening\<close>, the one handler that writes either of them,
  leaves a question as it was or leaves it with both present.
\<close>

theorem answer_audioDuration_atomic:
  "(\<forall>q \<in> set (questions (app (run b es))). (answer q = None) = (audioDuration q = None))
   \<and> (\<forall>q \<in> set (questions (stopListening t s)).
         q \<in> set (questions s) \<or> (answer q \<noteq> None \<and> audioDuration q \<noteq> None))"
  using invariant_run [of b es] stopListening_sets_both [of _ t s]
  by (auto simp: invariant_def)

theorem answer_audioDuration_atomic_witness:
  "map (\<lambda>q. (answer q, audioDuration q)) (questions (app (run True presetSession)))
     = [(Some ''ab. '', Some (Finite 2)), (None, None), (None, None), (None, None),
        (None, None)]"
  using answer_audioDuration_atomic [of True presetSession 0 "initialState True"]
  by (simp add: presetSession_def eval_defs)

subsection \<open>The current index\<close>

lemma fetchFeedback_advance_index:
  "currentQuestionIndex (snd (fetchFeedback_advance i u s)) = currentQuestionIndex s"
proof (cases "fetchFeedback_advance i u s")
  case (Pair p s')
  show ?thesis
  proof (cases p)
    case None
    with Pair fetchFeedback_advance_None [of i u s s'] show ?thesis by simp
  next
    case (Some ju)
    obtain j w where "ju = (j, w)" by (cases ju)
    with Some Pair fetchFeedback_advance_Some [of i u s j w s'] show ?thesis by simp
  qed
qed

lemma runEffects_index:
  "currentQuestionIndex (app (runEffects before sys)) = currentQuestionIndex (app sys)"
  using fetchFeedback_advance_index [of 0 "questions (app sys)" "app sys"]
  by (auto simp: runEffects_def split: prod.splits)

lemma index_zero_before_interview:
  "interviewState (app (run b es)) \<in> {NOT_STARTED, GETTING_JOB_DESC, GENERATING_QUESTIONS}
     \<Longrightarrow> currentQuestionIndex (app (run b es)) = 0"
  using invariant_run [of b es] by (simp add: invariant_def)

lemma index_step_mono:
  assumes "invariant sys" and "e \<noteq> ClickReset"
  shows "currentQuestionIndex (app sys) \<le> currentQuestionIndex (app (step sys e))"
proof (cases e)
  case (ClickMic now)
  show ?thesis
  proof (cases "interviewState (app sys) = INTERVIEWING \<and> \<not> isSpeaking (app sys)
                  \<and> isListening (app sys)")
    case True
    with assms(1) have rr: "recognitionRef (app sys)" by (simp add: invariant_def)
    from True rr ClickMic show ?thesis
      by (simp add: stopListening_phase runEffects_index)
  next
    case False
    with ClickMic show ?thesis
      by (auto simp: runEffects_same startListening_fields)
  qed
next
  case (FeedbackSettled reply)
  show ?thesis
  proof (cases "pending sys")
    case None
    with FeedbackSettled show ?thesis by simp
  next
    case (Some iu)
    obtain i u where iu: "iu = (i, u)" by (cases iu)
    obtain u' s' where st:
      "fetchFeedback_settle (getAnswerFeedback (\<lambda>prompt. reply) (u ! i)) i u (app sys) = (u', s')"
      by (cases "fetchFeedback_settle (getAnswerFeedback (\<lambda>prompt. reply) (u ! i)) i u (app sys)")
         auto
    then have "currentQuestionIndex s' = currentQuestionIndex (app sys)"
      by (auto simp: fetchFeedback_settle_def Let_def split: sum.splits)
    with fetchFeedback_resume_cases [OF st] Some iu FeedbackSettled show ?thesis
      by auto
  qed
qed (use assms in \<open>auto simp: invariant_def startInterview_begin_def startInterview_settle_eq\<close>)

lemma fetchFeedback_resume_phase:
  assumes "interviewState s = AWAITING_FEEDBACK"
  shows "interviewState (snd (fetchFeedback_resume r i u s)) \<in> {AWAITING_FEEDBACK, REVIEWING}"
proof -
  obtain u' s' where st: "fetchFeedback_settle r i u s = (u', s')"
    by (cases "fetchFeedback_settle r i u s") auto
  then have "interviewState s' = AWAITING_FEEDBACK"
    using assms by (auto simp: fetchFeedback_settle_def Let_def split: sum.splits)
  with fetchFeedback_resume_cases [OF st] show ?thesis by auto
qed

lemma step_FeedbackSettled_phase:
  assumes "invariant sys"
  shows "step sys (FeedbackSettled reply) = sys
         \<or> interviewState (app (step sys (FeedbackSettled reply))) \<in> {AWAITING_FEEDBACK, REVIEWING}"
proof (cases "pending sys")
  case None
  then show ?thesis by simp
next
  case (Some iu)
  obtain i u where iu: "iu = (i, u)" by (cases iu)
  with assms Some have "interviewState (app sys) = AWAITING_FEEDBACK"
    by (simp add: invariant_def)
  from fetchFeedback_resume_phase [OF this,
         of "getAnswerFeedback (\<lambda>prompt. reply) (u ! i)" i u] Some iu
  show ?thesis by (auto split: prod.splits)
qed

lemma fetchFeedback_advance_phase:
  "interviewState (snd (fetchFeedback_advance i u s)) \<in> {interviewState s, REVIEWING}"
proof (cases "fetchFeedback_advance i u s")
  case (Pair p s')
  show ?thesis
  proof (cases p)
    case None
    with Pair fetchFeedback_advance_None [of i u s s'] show ?thesis by simp
  next
    case (Some ju)
    obtain j w where "ju = (j, w)" by (cases ju)
    with Some Pair fetchFeedback_advance_Some [of i u s j w s'] show ?thesis by simp
  qed
qed

lemma step_ClickMic_cases:
  assumes "invariant sys"
  shows "step sys (ClickMic now) = sys
         \<or> (interviewState (app sys) = INTERVIEWING
             \<and> length (questions (app (step sys (ClickMic now)))) = length (questions (app sys))
             \<and> interviewState (app (step sys (ClickMic now)))
                 \<in> {INTERVIEWING, AWAITING_FEEDBACK, REVIEWING}
             \<and> currentQuestionIndex (app (step sys (ClickMic now)))
                 \<in> {currentQuestionIndex (app sys), currentQuestionIndex (app sys) + 1})"
proof (cases "interviewState (app sys) = INTERVIEWING \<and> \<not> isSpeaking (app sys)")
  case False
  then show ?thesis by auto
next
  case en: True
  show ?thesis
  proof (cases "isListening (app sys)")
    case False
    with en show ?thesis
      by (simp add: runEffects_same startListening_fields)
  next
    case True
    with assms have rr: "recognitionRef (app sys)" by (simp add: invariant_def)
    let ?sys = "sys\<lparr>app := stopListening now (app sys)\<rparr>"
    have q: "questions (app (runEffects (app sys) ?sys)) = questions (app ?sys)"
      using fetchFeedback_advance_questions [of 0 "questions (app ?sys)" "app ?sys"]
      by (auto simp: runEffects_def split: prod.splits)
    have ph: "interviewState (app (runEffects (app sys) ?sys))
                \<in> {interviewState (app ?sys), REVIEWING}"
      using fetchFeedback_advance_phase [of 0 "questions (app ?sys)" "app ?sys"]
      by (auto simp: runEffects_def split: prod.splits)
    from en True rr q ph show ?thesis
      by (auto simp: runEffects_index stopListening_phase stopListening_questions
            split: if_splits)
  qed
qed

lemma empty_questions_step:
  assumes "invariant sys" and "e \<noteq> QuestionsSettled (Some [])"
    and "interviewState (app (step sys e)) = INTERVIEWING"
    and "questions (app (step sys e)) = []"
  shows "interviewState (app sys) = INTERVIEWING \<and> questions (app sys) = []"
proof (cases e)
  case (ClickMic now)
  with step_ClickMic_cases [OF assms(1), of now] assms(3,4) show ?thesis
    by auto
next
  case (FeedbackSettled reply)
  with step_FeedbackSettled_phase [OF assms(1), of reply] assms(3,4) show ?thesis
    by auto
next
  case (QuestionsSettled reply)
  with assms show ?thesis
    by (cases reply)
       (auto simp: startInterview_settle_eq generateQuestionsFromJD_def PRESET_QUESTIONS_def
          split: if_splits)
next
  case ClickStartInterview
  with assms show ?thesis
    by (auto simp: startInterview_settle_eq startInterview_begin_def PRESET_QUESTIONS_def
          split: if_splits)
qed (use assms in \<open>auto simp: resetInterview_def split: if_splits\<close>)

lemma empty_questions_origin:
  "interviewState (app (run b es)) = INTERVIEWING \<Longrightarrow> questions (app (run b es)) = []
     \<Longrightarrow> QuestionsSettled (Some []) \<in> set es"
proof (induction es rule: rev_induct)
  case Nil
  then show ?case by (simp add: run_def initialSystem_def initialState_def)
next
  case (snoc e es)
  show ?case
  proof (cases "e = QuestionsSettled (Some [])")
    case True
    then show ?thesis by simp
  next
    case False
    from empty_questions_step [OF invariant_run False, of b es] snoc.prems
    have "interviewState (app (run b es)) = INTERVIEWING \<and> questions (app (run b es)) = []"
      by (simp add: run_snoc)
    with snoc.IH show ?thesis by simp
  qed
qed

lemma entering_interview_step:
  assumes "invariant sys" and "interviewState (app sys) \<noteq> INTERVIEWING"
    and "interviewState (app (step sys e)) = INTERVIEWING"
  shows "currentQuestionIndex (app (step sys e)) = 0"
proof (cases e)
  case (ClickMic now)
  with step_ClickMic_cases [OF assms(1), of now] assms(2,3) show ?thesis by auto
next
  case (FeedbackSettled reply)
  with step_FeedbackSettled_phase [OF assms(1), of reply] assms(2,3) show ?thesis by auto
qed (use assms in \<open>auto simp: startInterview_settle_eq startInterview_begin_def resetInterview_def
        split: if_splits\<close>)

lemma answering_step:
  assumes "invariant sys" and "interviewState (app sys) = INTERVIEWING"
    and "isListening (app sys)" and "\<not> isSpeaking (app sys)"
    and "currentQuestionIndex (app sys) + 1 < length (questions (app sys))"
  shows "currentQuestionIndex (app (step sys (ClickMic t))) = currentQuestionIndex (app sys) + 1
         \<and> interviewState (app (step sys (ClickMic t))) = INTERVIEWING"
proof -
  from assms have rr: "recognitionRef (app sys)" by (simp add: invariant_def)
  have lt: "int (currentQuestionIndex (app sys)) < int (length (questions (app sys))) - 1"
    using assms(5) by simp
  from assms rr lt show ?thesis
    by (simp add: runEffects_same stopListening_phase runEffects_index)
qed

text \<open>
  The index in the reachable states. In every reachable state with the phase
  \<open>INTERVIEWING\<close>, \<open>currentQuestionIndex < questions.length\<close>, unless the list of
  questions is empty, which happens only after the generation request has returned an
  empty list. No event other than a reset decreases the index; the index is 0 when
  \<open>INTERVIEWING\<close> is entered; stopping the capture of a question that is not the last
  one increments the index by exactly 1 and stays in \<open>INTERVIEWING\<close>.
\<close>

lemma index_in_range_or_empty:
  "(interviewState (app (run b es)) = INTERVIEWING \<longrightarrow>
      currentQuestionIndex (app (run b es)) < length (questions (app (run b es)))
      \<or> (questions (app (run b es)) = [] \<and> currentQuestionIndex (app (run b es)) = 0
          \<and> QuestionsSettled (Some []) \<in> set es))
   \<and> (e \<noteq> ClickReset \<longrightarrow>
        currentQuestionIndex (app (run b es)) \<le> currentQuestionIndex (app (step (run b es) e)))
   \<and> (interviewState (app (run b es)) \<noteq> INTERVIEWING
        \<and> interviewState (app (step (run b es) e)) = INTERVIEWING \<longrightarrow>
        currentQuestionIndex (app (step (run b es) e)) = 0)
   \<and> (interviewState (app (run b es)) = INTERVIEWING \<and> isListening (app (run b es))
        \<and> \<not> isSpeaking (app (run b es))
        \<and> currentQuestionIndex (app (run b es)) + 1 < length (questions (app (run b es))) \<longrightarrow>
        currentQuestionIndex (app (step (run b es) (ClickMic t)))
          = currentQuestionIndex (app (run b es)) + 1
        \<and> interviewState (app (step (run b es) (ClickMic t))) = INTERVIEWING)"
proof (intro conjI impI)
  assume ph: "interviewState (app (run b es)) = INTERVIEWING"
  with invariant_run [of b es]
  have "currentQuestionIndex (app (run b es)) < length (questions (app (run b es)))
        \<or> (questions (app (run b es)) = [] \<and> currentQuestionIndex (app (run b es)) = 0)"
    by (simp add: invariant_def)
  with empty_questions_origin [OF ph]
  show "currentQuestionIndex (app (run b es)) < length (questions (app (run b es)))
      \<or> (questions (app (run b es)) = [] \<and> currentQuestionIndex (app (run b es)) = 0
          \<and> QuestionsSettled (Some []) \<in> set es)"
    by blast
next
  assume "e \<noteq> ClickReset"
  then show "currentQuestionIndex (app (run b es))
               \<le> currentQuestionIndex (app (step (run b es) e))"
    by (rule index_step_mono [OF invariant_run])
next
  assume "interviewState (app (run b es)) \<noteq> INTERVIEWING
        \<and> interviewState (app (step (run b es) e)) = INTERVIEWING"
  then show "currentQuestionIndex (app (step (run b es) e)) = 0"
    using entering_interview_step [OF invariant_run, of b es e] by blast
next
  assume a: "interviewState (app (run b es)) = INTERVIEWING \<and> isListening (app (run b es))
        \<and> \<not> isSpeaking (app (run b es))
        \<and> currentQuestionIndex (app (run b es)) + 1 < length (questions (app (run b es)))"
  then show "currentQuestionIndex (app (step (run b es) (ClickMic t)))
          = currentQuestionIndex (app (run b es)) + 1"
    using answering_step [OF invariant_run, of b es t] by blast
  from a show "interviewState (app (step (run b es) (ClickMic t))) = INTERVIEWING"
    using answering_step [OF invariant_run, of b es t] by blast
qed

lemma secondAnswer_eval:
  "interviewState (app (run True secondAnswer)) = INTERVIEWING"
  "isListening (app (run True secondAnswer))"
  "\<not> isSpeaking (app (run True secondAnswer))"
  "currentQuestionIndex (app (run True secondAnswer)) = 1"
  "length (questions (app (run True secondAnswer))) = 5"
  by (simp_all add: secondAnswer_def presetSession_def eval_defs)

lemma index_in_range_or_empty_example:
  "interviewState (app (run True secondAnswer)) = INTERVIEWING
   \<and> currentQuestionIndex (app (run True secondAnswer)) = 1
   \<and> length (questions (app (run True secondAnswer))) = 5
   \<and> currentQuestionIndex (app (step (run True secondAnswer) (ClickMic 9000))) = 2
   \<and> interviewState (app (step (run True secondAnswer) (ClickMic 9000))) = INTERVIEWING"
  using index_in_range_or_empty [of True secondAnswer "ClickMic 9000" 9000] secondAnswer_eval
  by (simp del: step.simps)

text \<open>
  C5 fails in the code when the generation request returns an empty list. The user
  describes the job as "dev" and starts; the request resolves to \<open>[]\<close>.
  \<open>startInterview\<close> stores the empty list and enters \<open>INTERVIEWING\<close> with the index 0,
  which is not below the length 0; the view of that phase then reads
  \<open>questions[0].text\<close> and throws.
\<close>

theorem empty_generation_crash:
  "interviewState (app (run True emptyGeneration)) = INTERVIEWING
   \<and> questions (app (run True emptyGeneration)) = []
   \<and> currentQuestionIndex (app (run True emptyGeneration)) = 0
   \<and> \<not> currentQuestionIndex (app (run True emptyGeneration))
         < length (questions (app (run True emptyGeneration)))
   \<and> currentQuestionText (app (run True emptyGeneration)) = None"
  by (simp add: emptyGeneration_eval currentQuestionText_def)

subsection \<open>The pipeline in reachable states\<close>

lemma unreviewed_initial: "unreviewed (initialSystem b)"
  by (simp add: unreviewed_def initialSystem_def initialState_def)

lemma stopListening_feedback:
  assumes "\<forall>q \<in> set (questions s). feedback q = None"
  shows "\<forall>q \<in> set (questions (stopListening t s)). feedback q = None"
  using assms by (auto simp: stopListening_def Let_def in_set_map_index)

lemma fetchFeedback_advance_pending:
  "fst (fetchFeedback_advance i u s) = None \<or> (\<exists>j. fst (fetchFeedback_advance i u s) = Some (j, u))"
proof (cases "fetchFeedback_advance i u s")
  case (Pair p s')
  show ?thesis
  proof (cases p)
    case None
    with Pair show ?thesis by simp
  next
    case (Some ju)
    obtain j w where "ju = (j, w)" by (cases ju)
    with Some Pair fetchFeedback_advance_Some [of i u s j w s'] show ?thesis by simp
  qed
qed

lemma unreviewed_ClickMic:
  assumes inv: "invariant sys" and un: "unreviewed sys"
  shows "unreviewed (step sys (ClickMic now))"
proof (cases "interviewState (app sys) = INTERVIEWING \<and> \<not> isSpeaking (app sys)")
  case False
  with un show ?thesis by auto
next
  case en: True
  with inv have pn: "pending sys = None" by (auto simp: invariant_def split: option.splits)
  from en un have none: "\<forall>q \<in> set (questions (app sys)). feedback q = None"
    by (simp add: unreviewed_def)
  show ?thesis
  proof (cases "isListening (app sys)")
    case False
    with en pn none show ?thesis
      by (simp add: runEffects_same startListening_fields unreviewed_def)
  next
    case True
    let ?a = "stopListening now (app sys)"
    let ?sys = "sys\<lparr>app := ?a\<rparr>"
    have none': "\<forall>q \<in> set (questions ?a). feedback q = None"
      using none by (rule stopListening_feedback)
    have st: "step sys (ClickMic now) = runEffects (app sys) ?sys"
      using en True by simp
    have q: "questions (app (runEffects (app sys) ?sys)) = questions ?a"
      using fetchFeedback_advance_questions [of 0 "questions ?a" ?a]
      by (auto simp: runEffects_def split: prod.splits)
    have p: "pending (runEffects (app sys) ?sys) = None
             \<or> (\<exists>j. pending (runEffects (app sys) ?sys) = Some (j, questions ?a))"
      using fetchFeedback_advance_pending [of 0 "questions ?a" ?a] pn
      by (auto simp: runEffects_def split: prod.splits)
    from p q none' show ?thesis
      unfolding st by (auto simp: unreviewed_def)
  qed
qed

lemma unreviewed_FeedbackSettled:
  assumes inv: "invariant sys" and un: "unreviewed sys"
  shows "unreviewed (step sys (FeedbackSettled reply))"
proof (cases "pending sys")
  case None
  with un show ?thesis by simp
next
  case (Some iu)
  obtain i u where iu: "iu = (i, u)" by (cases iu)
  let ?r = "getAnswerFeedback (\<lambda>prompt. reply) (u ! i)"
  from inv Some iu have pre: "interviewState (app sys) = AWAITING_FEEDBACK" "i < length u"
    by (auto simp: invariant_def)
  from un Some iu have none: "\<forall>k. i \<le> k \<and> k < length u \<longrightarrow> feedback (u ! k) = None"
    by (simp add: unreviewed_def)
  obtain u' s' where st: "fetchFeedback_settle ?r i u (app sys) = (u', s')"
    by (cases "fetchFeedback_settle ?r i u (app sys)") auto
  have props: "interviewState s' = AWAITING_FEEDBACK \<and> length u' = length u
               \<and> (\<forall>k. i < k \<and> k < length u \<longrightarrow> u' ! k = u ! k)"
    using fetchFeedback_settle_cases [OF pre(2), of ?r "app sys"] st pre by auto
  have stp: "step sys (FeedbackSettled reply)
               = (case fetchFeedback_resume ?r i u (app sys) of
                    (p, s'') \<Rightarrow> sys\<lparr>app := s'', pending := p\<rparr>)"
    using Some iu by simp
  from fetchFeedback_resume_cases [OF st]
  show ?thesis
  proof (elim disjE exE conjE)
    fix j assume "fetchFeedback_resume ?r i u (app sys) = (Some (j, u'), s')"
      and ij: "i < j"
    then have "step sys (FeedbackSettled reply) = sys\<lparr>app := s', pending := Some (j, u')\<rparr>"
      by (simp add: stp del: step.simps)
    with props none ij show ?thesis
      by (auto simp: unreviewed_def simp del: step.simps)
  next
    assume "fetchFeedback_resume ?r i u (app sys) = (None, s'\<lparr>interviewState := REVIEWING\<rparr>)"
    then have "step sys (FeedbackSettled reply)
                 = sys\<lparr>app := s'\<lparr>interviewState := REVIEWING\<rparr>, pending := None\<rparr>"
      by (simp add: stp del: step.simps)
    then show ?thesis
      by (simp add: unreviewed_def del: step.simps)
  qed
qed

lemma unreviewed_step:
  assumes "invariant sys" and "unreviewed sys"
  shows "unreviewed (step sys e)"
proof (cases e)
  case (ClickMic now)
  with assms show ?thesis by (simp only: unreviewed_ClickMic)
next
  case (FeedbackSettled reply)
  with assms show ?thesis by (simp only: unreviewed_FeedbackSettled)
qed (use assms in \<open>auto simp: unreviewed_def invariant_def startInterview_begin_def
        startInterview_settle_eq toQuestions_blank resetInterview_def split: option.splits\<close>)

lemma unreviewed_run: "unreviewed (run b es)"
proof (induction es rule: rev_induct)
  case Nil
  show ?case by (simp add: run_def unreviewed_initial)
next
  case (snoc e es)
  then show ?case by (simp only: run_snoc unreviewed_step [OF invariant_run])
qed

text \<open>
  C2. Run to its end against a client, \<open>fetchFeedback\<close> calls \<open>getAnswerFeedback\<close> for
  exactly the questions whose answer is not empty, one after the other in the order of the
  list (the trace), which is the ascending order of ids when the ids of the list ascend,
  as they do in every reachable state. Each question keeps everything but its feedback: a
  successful call stores the feedback, a failed call leaves the question as it was, that
  is without feedback, since in a reachable state the questions still to be processed
  have none, and the loop goes on. The phase at the end is \<open>REVIEWING\<close> whatever the
  calls returned.
\<close>

theorem fetchFeedback_pipeline:
  "fetchFeedback client s =
     (s\<lparr>questions :=
          map (\<lambda>q. if answered q
                    then (case getAnswerFeedback client q of
                            Inr fb \<Rightarrow> q\<lparr>feedback := Some fb\<rparr>
                          | Inl e \<Rightarrow> q)
                    else q) (questions s),
        interviewState := REVIEWING\<rparr>,
      filter answered (questions s))
   \<and> (sorted_wrt (<) (map qid (questions s)) \<longrightarrow>
        sorted_wrt (<) (map qid (snd (fetchFeedback client s))))
   \<and> (interviewState s = AWAITING_FEEDBACK \<longrightarrow>
        feedbackEffect client s = fst (fetchFeedback client s))
   \<and> sorted_wrt (<) (map qid (questions (app (run b es))))
   \<and> (\<forall>i u. pending (run b es) = Some (i, u) \<longrightarrow>
         (\<forall>k. i \<le> k \<and> k < length u \<longrightarrow> feedback (u ! k) = None))"
proof (intro conjI impI allI)
  show "fetchFeedback client s =
     (s\<lparr>questions :=
          map (\<lambda>q. if answered q
                    then (case getAnswerFeedback client q of
                            Inr fb \<Rightarrow> q\<lparr>feedback := Some fb\<rparr>
                          | Inl e \<Rightarrow> q)
                    else q) (questions s),
        interviewState := REVIEWING\<rparr>,
      filter answered (questions s))"
    by (rule fetchFeedback_eq)
next
  assume "sorted_wrt (<) (map qid (questions s))"
  then show "sorted_wrt (<) (map qid (snd (fetchFeedback client s)))"
    by (simp only: fetchFeedback_eq snd_conv sorted_ids_filter)
next
  assume "interviewState s = AWAITING_FEEDBACK"
  then show "feedbackEffect client s = fst (fetchFeedback client s)"
    by (simp add: feedbackEffect_def)
next
  have "map qid (questions (app (run b es))) = [0..<length (questions (app (run b es)))]"
    using invariant_run [of b es] by (simp add: invariant_def)
  then show "sorted_wrt (<) (map qid (questions (app (run b es))))"
    by simp
next
  fix i u k
  assume "pending (run b es) = Some (i, u)" and "i \<le> k \<and> k < length u"
  with unreviewed_run [of b es] show "feedback (u ! k) = None"
    by (simp add: unreviewed_def)
qed

theorem fetchFeedback_pipeline_witness:
  "map feedback (questions (fst (fetchFeedback flakyClient threeAnswered)))
     = [Some sampleFeedback, None, Some sampleFeedback]
   \<and> interviewState (fst (fetchFeedback flakyClient threeAnswered)) = REVIEWING
   \<and> map qid (snd (fetchFeedback flakyClient threeAnswered)) = [0, 1, 2]
   \<and> map feedback (questions (fst (fetchFeedback failingClient threeAnswered)))
     = [None, None, None]
   \<and> interviewState (feedbackEffect failingClient threeAnswered) = REVIEWING"
  using fetchFeedback_pipeline [of flakyClient threeAnswered True "[]"]
        fetchFeedback_pipeline [of failingClient threeAnswered True "[]"]
  by (simp add: threeAnswered_questions answered_def getAnswerFeedback_def flakyClient_def
        failingClient_def)
     (simp add: threeAnswered_def)

lemma pending_answered:
  "pending (run b es) = Some (i, u) \<Longrightarrow> i < length u \<and> answered (u ! i)"
  using invariant_run [of b es] by (simp add: invariant_def)

text \<open>
  C10. \<open>getAnswerFeedback\<close> fails with "Answer is missing" exactly when the answer is
  absent or empty. The pipeline never meets this failure: every question in the trace of
  \<open>fetchFeedback\<close>, and the question of every suspended call in a reachable state, has a
  non-empty answer. A question whose answer is the empty string is not in the trace and is
  left as it was, so it receives no feedback.
\<close>

theorem answer_missing_guard:
  "((getAnswerFeedback client q = Inl (Error ''Answer is missing''))
      = (answer q = None \<or> answer q = Some []))
   \<and> (\<forall>c \<in> set (snd (fetchFeedback client s)).
         getAnswerFeedback client c \<noteq> Inl (Error ''Answer is missing''))
   \<and> (\<forall>i u. pending (run b es) = Some (i, u) \<longrightarrow>
         getAnswerFeedback client (u ! i) \<noteq> Inl (Error ''Answer is missing''))
   \<and> (\<forall>i < length (questions s). answer (questions s ! i) = Some [] \<longrightarrow>
         questions (fst (fetchFeedback client s)) ! i = questions s ! i
         \<and> questions s ! i \<notin> set (snd (fetchFeedback client s)))"
proof (intro conjI allI impI ballI)
  show "(getAnswerFeedback client q = Inl (Error ''Answer is missing''))
          = (answer q = None \<or> answer q = Some [])"
    by (simp add: getAnswerFeedback_missing answered_def split: option.splits)
next
  fix c assume "c \<in> set (snd (fetchFeedback client s))"
  then have "answered c" by (simp add: fetchFeedback_eq)
  then show "getAnswerFeedback client c \<noteq> Inl (Error ''Answer is missing'')"
    by (simp add: getAnswerFeedback_missing)
next
  fix i u assume "pending (run b es) = Some (i, u)"
  then have "answered (u ! i)" using pending_answered by blast
  then show "getAnswerFeedback client (u ! i) \<noteq> Inl (Error ''Answer is missing'')"
    by (simp add: getAnswerFeedback_missing)
next
  fix i assume i: "i < length (questions s)" and e: "answer (questions s ! i) = Some []"
  then have na: "\<not> answered (questions s ! i)" by (simp add: answered_def)
  with i show "questions (fst (fetchFeedback client s)) ! i = questions s ! i"
    by (simp add: fetchFeedback_eq)
  from na show "questions s ! i \<notin> set (snd (fetchFeedback client s))"
    by (simp add: fetchFeedback_eq)
qed

theorem answer_missing_guard_witness:
  "getAnswerFeedback echoClient (sampleQuestion [] (Finite 2)) = Inl (Error ''Answer is missing'')
   \<and> map qid (snd (fetchFeedback echoClient silentSecond)) = [0]
   \<and> feedback (questions (fst (fetchFeedback echoClient silentSecond)) ! 1) = None
   \<and> feedback (questions (fst (fetchFeedback echoClient silentSecond)) ! 0) \<noteq> None"
  using answer_missing_guard [of echoClient "sampleQuestion [] (Finite 2)" silentSecond True "[]"]
  by (simp add: fetchFeedback_eq silentSecond_def sampleQuestion_def answered_def
        getAnswerFeedback_def echoClient_def wordsPerMinute_eq)

end
